theory Spec2Isabelle
  imports Complex_Main
begin

section \<open>Crypto Cascade: the data model\<close>

text \<open>
  The component keeps an 8x8 grid of optional tokens and a game-state record. Every
  JavaScript number that the logic computes with (score, moves, level, target score,
  combo counter, the write pointer of the gravity loop) is an \<open>int\<close>; indices into
  the grid and array lengths are \<open>nat\<close>. The scores of the game stay far below
  \<open>2 ^ 53\<close>, where JavaScript numbers are exact integers; the product of the target
  score and 1.5 is modelled with its binary64 rounding. The fields \<open>id\<close> and
  \<open>type\<close> of a token are \<open>tokenId\<close> and \<open>tokenType\<close> here, and the fields of the
  selected cell are \<open>selRow\<close> and \<open>selCol\<close>.
\<close>

datatype TokenType = ETH | BTC | USDC | MATIC | BASE | WETH

record Token =
  tokenId :: string
  tokenType :: TokenType
  row :: nat
  col :: nat
  isMatched :: bool
  isFalling :: bool

type_synonym grid = "Token option list list"

datatype GameStatus = menu | playing | levelComplete | gameOver

record Selection =
  selRow :: nat
  selCol :: nat

record CascadeState =
  grid :: grid
  score :: int
  moves :: int
  level :: int
  targetScore :: int
  gameStatus :: GameStatus
  cascadeCombo :: int
  selectedToken :: "Selection option"
  isProcessing :: bool

definition GRID_SIZE :: nat where
  "GRID_SIZE = 8"

definition TOKEN_TYPES :: "TokenType list" where
  "TOKEN_TYPES = [ETH, BTC, USDC, MATIC, BASE, WETH]"

definition INITIAL_MOVES :: int where
  "INITIAL_MOVES = 20"

text \<open>
  The shape every grid of the running component has: \<open>createInitialGrid\<close> builds
  \<open>GRID_SIZE\<close> rows of \<open>GRID_SIZE\<close> cells and no operation changes the shape. The
  cells are rendered from the grid, so the coordinates of a click are inside it. The
  model reads \<open>grid[row][col]\<close> as \<open>grid ! row ! col\<close> and is meant on such grids
  and coordinates only; the theorems carry \<open>wf_grid\<close> as a hypothesis.
\<close>

definition wf_grid :: "grid \<Rightarrow> bool" where
  "wf_grid g \<longleftrightarrow> length g = GRID_SIZE \<and> list_all (\<lambda>r. length r = GRID_SIZE) g"

text \<open>The invariant of the data model: a token's stored position is its grid slot.\<close>

definition positions_ok :: "grid \<Rightarrow> bool" where
  "positions_ok g \<longleftrightarrow>
     list_all (\<lambda>r. list_all (\<lambda>c.
        case g ! r ! c of None \<Rightarrow> True | Some t \<Rightarrow> row t = r \<and> col t = c)
        [0..<GRID_SIZE]) [0..<GRID_SIZE]"

text \<open>
  Outside of a resolution step every slot is occupied; an empty slot is transient.
\<close>

definition full :: "grid \<Rightarrow> bool" where
  "full g \<longleftrightarrow>
     list_all (\<lambda>r. list_all (\<lambda>c. g ! r ! c \<noteq> None) [0..<GRID_SIZE]) [0..<GRID_SIZE]"

subsection \<open>Template strings and the keys of the matched set\<close>

text \<open>
  \<open>findMatches\<close> collects the keys \<^verbatim>\<open>`${row}-${col}`\<close> in a \<open>Set\<close> and turns
  them back into coordinates with \<^verbatim>\<open>key.split('-').map(Number)\<close>. The keys are
  made of two decimal numerals and one dash, which is all that \<open>Number\<close> and
  \<open>parse_key\<close> are meant for: the last case of \<open>parse_key\<close> is never reached.
\<close>

text \<open>The decimal numeral that a template string puts for a non-negative integer.\<close>

definition digit_char :: "nat \<Rightarrow> char" where
  "digit_char d = char_of (48 + d)"

fun decimal :: "nat \<Rightarrow> string" where
  "decimal n =
     (if n < 10 then [digit_char n] else decimal (n div 10) @ [digit_char (n mod 10)])"

declare decimal.simps [simp del]

definition Number :: "string \<Rightarrow> nat" where
  "Number s = fold (\<lambda>ch n. 10 * n + (of_char ch - 48)) s 0"

fun split_on :: "char \<Rightarrow> string \<Rightarrow> string list" where
  "split_on sep [] = [[]]"
| "split_on sep (ch # s) =
     (if ch = sep then [] # split_on sep s
      else (case split_on sep s of p # ps \<Rightarrow> (ch # p) # ps | [] \<Rightarrow> [[ch]]))"

definition key :: "nat \<Rightarrow> nat \<Rightarrow> string" where
  "key r c = decimal r @ ''-'' @ decimal c"

definition parse_key :: "string \<Rightarrow> nat \<times> nat" where
  "parse_key k = (case map Number (split_on (CHR ''-'') k) of
                    r # c # _ \<Rightarrow> (r, c)
                  | _ \<Rightarrow> (0, 0))"

text \<open>A JavaScript \<open>Set\<close> keeps insertion order and ignores a value it already holds.\<close>

definition set_add :: "'a \<Rightarrow> 'a list \<Rightarrow> 'a list" where
  "set_add x xs = (if x \<in> set xs then xs else xs @ [x])"

section \<open>The match detector\<close>

definition same_kind3 :: "Token option \<Rightarrow> Token option \<Rightarrow> Token option \<Rightarrow> bool" where
  "same_kind3 token1 token2 token3 =
     (case token1 of None \<Rightarrow> False | Some t1 \<Rightarrow>
      (case token2 of None \<Rightarrow> False | Some t2 \<Rightarrow>
       (case token3 of None \<Rightarrow> False | Some t3 \<Rightarrow>
          tokenType t1 = tokenType t2 \<and> tokenType t2 = tokenType t3)))"

definition horizontal_check :: "grid \<Rightarrow> nat \<Rightarrow> nat \<Rightarrow> string list \<Rightarrow> string list" where
  "horizontal_check g r c matched =
     (if same_kind3 (g ! r ! c) (g ! r ! (c + 1)) (g ! r ! (c + 2))
      then set_add (key r (c + 2)) (set_add (key r (c + 1)) (set_add (key r c) matched))
      else matched)"

definition vertical_check :: "grid \<Rightarrow> nat \<Rightarrow> nat \<Rightarrow> string list \<Rightarrow> string list" where
  "vertical_check g c r matched =
     (if same_kind3 (g ! r ! c) (g ! (r + 1) ! c) (g ! (r + 2) ! c)
      then set_add (key (r + 2) c) (set_add (key (r + 1) c) (set_add (key r c) matched))
      else matched)"

definition horizontal_pass :: "grid \<Rightarrow> string list \<Rightarrow> string list" where
  "horizontal_pass g matched =
     fold (\<lambda>r. fold (horizontal_check g r) [0..<GRID_SIZE - 2]) [0..<GRID_SIZE] matched"

definition vertical_pass :: "grid \<Rightarrow> string list \<Rightarrow> string list" where
  "vertical_pass g matched =
     fold (\<lambda>c. fold (vertical_check g c) [0..<GRID_SIZE - 2]) [0..<GRID_SIZE] matched"

definition findMatches :: "grid \<Rightarrow> (nat \<times> nat) list" where
  "findMatches g = map parse_key (vertical_pass g (horizontal_pass g []))"

subsection \<open>The cells the two passes mark\<close>

text \<open>
  The test of one horizontal and of one vertical triple, and the cells covered by a
  triple that passes it: this is what the two loops of \<open>findMatches\<close> add.
\<close>

definition h_window :: "grid \<Rightarrow> nat \<Rightarrow> nat \<Rightarrow> bool" where
  "h_window g r c \<longleftrightarrow> same_kind3 (g ! r ! c) (g ! r ! (c + 1)) (g ! r ! (c + 2))"

definition v_window :: "grid \<Rightarrow> nat \<Rightarrow> nat \<Rightarrow> bool" where
  "v_window g r c \<longleftrightarrow> same_kind3 (g ! r ! c) (g ! (r + 1) ! c) (g ! (r + 2) ! c)"

definition h_keys :: "grid \<Rightarrow> string set" where
  "h_keys g = (\<Union>r\<in>set [0..<GRID_SIZE]. \<Union>c\<in>set [0..<GRID_SIZE - 2].
      if h_window g r c then {key r c, key r (c + 1), key r (c + 2)} else {})"

definition v_keys :: "grid \<Rightarrow> string set" where
  "v_keys g = (\<Union>c\<in>set [0..<GRID_SIZE]. \<Union>r\<in>set [0..<GRID_SIZE - 2].
      if v_window g r c then {key r c, key (r + 1) c, key (r + 2) c} else {})"

definition h_cells :: "grid \<Rightarrow> (nat \<times> nat) set" where
  "h_cells g = {(r, c). r < GRID_SIZE \<and> (\<exists>c0 \<in> set [0..<GRID_SIZE - 2]. c0 \<le> c \<and> c \<le> c0 + 2 \<and> h_window g r c0)}"

definition v_cells :: "grid \<Rightarrow> (nat \<times> nat) set" where
  "v_cells g = {(r, c). c < GRID_SIZE \<and> (\<exists>r0 \<in> set [0..<GRID_SIZE - 2]. r0 \<le> r \<and> r \<le> r0 + 2 \<and> v_window g r0 c)}"

subsection \<open>Runs, as the specification words them\<close>

text \<open>
  A run is a stretch of three or more consecutive cells of one row or one column that
  all hold tokens of one kind. \<open>in_run g (r, c)\<close> says that the cell lies in a run.
\<close>

definition holds_kind :: "TokenType \<Rightarrow> Token option \<Rightarrow> bool" where
  "holds_kind k x = (case x of None \<Rightarrow> False | Some t \<Rightarrow> tokenType t = k)"

definition is_run :: "Token option list \<Rightarrow> bool" where
  "is_run cells \<longleftrightarrow> 3 \<le> length cells \<and> (\<exists>k \<in> set TOKEN_TYPES. list_all (holds_kind k) cells)"

definition row_cells :: "grid \<Rightarrow> nat \<Rightarrow> nat \<Rightarrow> nat \<Rightarrow> Token option list" where
  "row_cells g r a b = map (\<lambda>c. g ! r ! c) [a..<b + 1]"

definition col_cells :: "grid \<Rightarrow> nat \<Rightarrow> nat \<Rightarrow> nat \<Rightarrow> Token option list" where
  "col_cells g c a b = map (\<lambda>r. g ! r ! c) [a..<b + 1]"

definition in_run :: "grid \<Rightarrow> nat \<times> nat \<Rightarrow> bool" where
  "in_run g p \<longleftrightarrow> (case p of (r, c) \<Rightarrow> r < GRID_SIZE \<and> c < GRID_SIZE \<and>
     ((\<exists>a \<in> set [0..<GRID_SIZE]. \<exists>b \<in> set [0..<GRID_SIZE].
          a \<le> c \<and> c \<le> b \<and> is_run (row_cells g r a b)) \<or>
      (\<exists>a \<in> set [0..<GRID_SIZE]. \<exists>b \<in> set [0..<GRID_SIZE].
          a \<le> r \<and> r \<le> b \<and> is_run (col_cells g c a b))))"

section \<open>The random source\<close>

text \<open>
  Each new token draws its kind,
  \<^verbatim>\<open>TOKEN_TYPES[Math.floor(Math.random() * TOKEN_TYPES.length)]\<close>, and the tail of
  its id, \<^verbatim>\<open>${Date.now()}-${Math.random()}\<close>. \<open>Math.random()\<close> lies in \<open>[0, 1)\<close>,
  so the index is one of \<open>0..5\<close> and the kind is one of \<open>TOKEN_TYPES\<close>, any of them.
  The source is made explicit: \<open>src k\<close> is what the \<open>k\<close>-th token creation draws, and
  the functions that create tokens take the number of draws made so far and return the
  new number.
\<close>

type_synonym source = "nat \<Rightarrow> TokenType \<times> string"

definition new_token :: "source \<Rightarrow> nat \<Rightarrow> nat \<Rightarrow> nat \<Rightarrow> bool \<Rightarrow> Token" where
  "new_token src k r c falling =
     \<lparr>tokenId = decimal r @ ''-'' @ decimal c @ ''-'' @ snd (src k),
      tokenType = fst (src k), row = r, col = c, isMatched = False, isFalling = falling\<rparr>"

section \<open>The grid generator\<close>

definition createInitialGrid :: "source \<Rightarrow> nat \<Rightarrow> grid \<times> nat" where
  "createInitialGrid src k =
     (map (\<lambda>r. map (\<lambda>c. Some (new_token src (k + r * GRID_SIZE + c) r c False))
                  [0..<GRID_SIZE]) [0..<GRID_SIZE],
      k + GRID_SIZE * GRID_SIZE)"

section \<open>One resolution step\<close>

text \<open>The assignment \<^verbatim>\<open>newGrid[row][col] = v\<close> on the copied grid.\<close>

definition set_cell :: "grid \<Rightarrow> nat \<Rightarrow> nat \<Rightarrow> Token option \<Rightarrow> grid" where
  "set_cell g r c v = g[r := (g ! r)[c := v]]"

definition clear_matches :: "(nat \<times> nat) list \<Rightarrow> grid \<Rightarrow> grid" where
  "clear_matches matches g = fold (\<lambda>(r, c) newGrid. set_cell newGrid r c None) matches g"

text \<open>
  The gravity loop of one column runs \<open>row\<close> from the bottom up and keeps the write
  pointer \<open>emptyRow\<close>, which ends at \<open>-1\<close> when the column is full. The pointer is
  never above the row being read, so it is a valid index whenever a token is written.
\<close>

definition gravity_step :: "nat \<Rightarrow> nat \<Rightarrow> grid \<times> int \<Rightarrow> grid \<times> int" where
  "gravity_step c r = (\<lambda>(newGrid, emptyRow).
     case newGrid ! r ! c of
       None \<Rightarrow> (newGrid, emptyRow)
     | Some t \<Rightarrow>
         (if int r \<noteq> emptyRow
          then set_cell (set_cell newGrid (nat emptyRow) c
                   (Some (t\<lparr>row := nat emptyRow, col := c\<rparr>))) r c None
          else newGrid,
          emptyRow - 1))"

definition refill_step :: "source \<Rightarrow> nat \<Rightarrow> nat \<Rightarrow> grid \<times> nat \<Rightarrow> grid \<times> nat" where
  "refill_step src c r = (\<lambda>(newGrid, k).
     (set_cell newGrid r c (Some (new_token src k r c True)), Suc k))"

definition column_step :: "source \<Rightarrow> nat \<Rightarrow> grid \<times> nat \<Rightarrow> grid \<times> nat" where
  "column_step src c = (\<lambda>(newGrid, k).
     case fold (gravity_step c) (rev [0..<GRID_SIZE]) (newGrid, int GRID_SIZE - 1) of
       (fallen, emptyRow) \<Rightarrow>
         fold (refill_step src c) (rev [0..<nat (emptyRow + 1)]) (fallen, k))"

text \<open>
  \<open>processCascade\<close> returns the new grid and the number of cleared cells, here with
  the number of draws made.
\<close>

definition processCascade :: "source \<Rightarrow> nat \<Rightarrow> grid \<Rightarrow> grid \<times> nat \<times> nat" where
  "processCascade src k g =
     (let matches = findMatches g in
      if length matches = 0 then (g, 0, k)
      else case fold (column_step src) [0..<GRID_SIZE] (clear_matches matches g, k) of
             (newGrid, k') \<Rightarrow> (newGrid, length matches, k'))"

section \<open>The cascade loop\<close>

text \<open>
  The loop \<^verbatim>\<open>while (true)\<close> leaves only through \<^verbatim>\<open>if (matchCount === 0) break\<close>;
  a run that never reaches such a step is the value \<open>None\<close>.
\<close>

partial_function (option) cascadeLoop ::
  "source \<Rightarrow> nat \<Rightarrow> grid \<Rightarrow> int \<Rightarrow> int \<Rightarrow> (grid \<times> int \<times> int \<times> nat) option" where
  "cascadeLoop src k g combo totalScore =
     (case processCascade src k g of
        (newGrid, matchCount, k') \<Rightarrow>
          if matchCount = 0 then Some (g, combo, totalScore, k')
          else cascadeLoop src k' newGrid (combo + 1)
                 (totalScore + int matchCount * 10 * (combo + 1)))"

declare cascadeLoop.simps [code]

text \<open>
  The product \<^verbatim>\<open>prev.targetScore * 1.5\<close> is a binary64 product: the exact product,
  rounded to 53 significant bits, ties to the even significand. For an integer \<open>t\<close> it
  is a number of halves, \<open>3 * t\<close> of them; \<open>round53\<close> rounds this count, which has
  the same significant bits as the product. \<open>t\<close> stands for a binary64 value (every
  integer up to \<open>2 ^ 53\<close> in magnitude is one), and the product stays far inside the
  exponent range.
\<close>

fun bit_length :: "nat \<Rightarrow> nat" where
  "bit_length n = (if n = 0 then 0 else Suc (bit_length (n div 2)))"

declare bit_length.simps [simp del]

definition round_to_even :: "nat \<Rightarrow> nat \<Rightarrow> nat" where
  "round_to_even s a =
     (let q = a div 2 ^ s; r = a mod 2 ^ s
      in (if 2 * r > 2 ^ s \<or> (2 * r = 2 ^ s \<and> odd q) then q + 1 else q) * 2 ^ s)"

definition round53 :: "int \<Rightarrow> int" where
  "round53 m =
     (let a = nat \<bar>m\<bar>; b = bit_length a
      in if b \<le> 53 then m else sgn m * int (round_to_even (b - 53) a))"

definition times_1_5 :: "int \<Rightarrow> real" where
  "times_1_5 t = real_of_int (round53 (3 * t)) / 2"

text \<open>
  The state update at the end of \<open>processCascadingMatches\<close>, applied to the state
  \<open>prev\<close> of that moment.
\<close>

definition finishCascade :: "grid \<Rightarrow> int \<Rightarrow> int \<Rightarrow> CascadeState \<Rightarrow> CascadeState" where
  "finishCascade g combo totalScore prev =
     (let newScore = score prev + totalScore;
          levelUp = (newScore \<ge> targetScore prev \<and> gameStatus prev = playing);
          newStatus = (if levelUp then levelComplete else gameStatus prev);
          newLevel = (if levelUp then level prev + 1 else level prev);
          newTargetScore = (if levelUp then times_1_5 (targetScore prev)
                            else real_of_int (targetScore prev));
          newMoves = (if levelUp then INITIAL_MOVES else moves prev)
      in prev\<lparr>grid := g, score := newScore,
              cascadeCombo := (if totalScore > 0 then combo else 0),
              isProcessing := False, gameStatus := newStatus, level := newLevel,
              targetScore := \<lfloor>newTargetScore\<rfloor>, moves := newMoves\<rparr>)"

definition processCascadingMatches ::
  "source \<Rightarrow> nat \<Rightarrow> grid \<Rightarrow> CascadeState \<Rightarrow> (CascadeState \<times> nat) option" where
  "processCascadingMatches src k initialGrid prev =
     (case cascadeLoop src k initialGrid 0 0 of
        None \<Rightarrow> None
      | Some (g, combo, totalScore, k') \<Rightarrow>
          Some (finishCascade g combo totalScore prev, k'))"

section \<open>The interaction handler\<close>

definition isAdjacent :: "Selection \<Rightarrow> nat \<Rightarrow> nat \<Rightarrow> bool" where
  "isAdjacent sel r c =
     (let rowDiff = \<bar>int (selRow sel) - int r\<bar>;
          colDiff = \<bar>int (selCol sel) - int c\<bar>
      in (rowDiff = 1 \<and> colDiff = 0) \<or> (rowDiff = 0 \<and> colDiff = 1))"

definition swap_cells :: "grid \<Rightarrow> Selection \<Rightarrow> nat \<Rightarrow> nat \<Rightarrow> grid" where
  "swap_cells g sel r c =
     (let temp = g ! r ! c;
          g1 = set_cell g r c (g ! selRow sel ! selCol sel);
          g2 = set_cell g1 (selRow sel) (selCol sel) temp;
          g3 = (case g2 ! r ! c of
                  Some t \<Rightarrow> set_cell g2 r c (Some (t\<lparr>row := r, col := c\<rparr>))
                | None \<Rightarrow> g2)
      in (case g3 ! selRow sel ! selCol sel of
            Some t \<Rightarrow> set_cell g3 (selRow sel) (selCol sel)
                        (Some (t\<lparr>row := selRow sel, col := selCol sel\<rparr>))
          | None \<Rightarrow> g3))"

text \<open>
  \<open>handleTokenClick\<close> returns the new state and, when the swap is committed, the
  grid on which it schedules \<open>processCascadingMatches\<close>. The state that the guard
  reads and the state that the update receives are the same state \<open>s\<close>. The sounds
  are left out: they do not touch the state.
\<close>

definition handleTokenClick :: "CascadeState \<Rightarrow> nat \<Rightarrow> nat \<Rightarrow> CascadeState \<times> grid option" where
  "handleTokenClick s r c =
     (if isProcessing s \<or> gameStatus s \<noteq> playing then (s, None)
      else case selectedToken s of
        None \<Rightarrow> (s\<lparr>selectedToken := Some \<lparr>selRow = r, selCol = c\<rparr>\<rparr>, None)
      | Some sel \<Rightarrow>
          if isAdjacent sel r c then
            (let newGrid = swap_cells (grid s) sel r c;
                 matches = findMatches newGrid
             in if length matches > 0 then
                  (let newMoves = moves s - 1;
                       newStatus = (if newMoves \<le> 0 \<and> score s < targetScore s
                                    then gameOver else gameStatus s)
                   in (s\<lparr>grid := newGrid, selectedToken := None, isProcessing := True,
                          moves := newMoves, gameStatus := newStatus\<rparr>, Some newGrid))
                else (s\<lparr>selectedToken := None\<rparr>, None))
          else (s\<lparr>selectedToken := Some \<lparr>selRow = r, selCol = c\<rparr>\<rparr>, None))"

definition startGame :: "source \<Rightarrow> nat \<Rightarrow> CascadeState \<times> nat" where
  "startGame src k =
     (case createInitialGrid src k of
        (g, k') \<Rightarrow>
          (\<lparr>grid = g, score = 0, moves = INITIAL_MOVES, level = 1, targetScore = 1000,
            gameStatus = playing, cascadeCombo = 0, selectedToken = None,
            isProcessing = False\<rparr>, k'))"

definition nextLevel :: "source \<Rightarrow> nat \<Rightarrow> CascadeState \<Rightarrow> CascadeState \<times> nat" where
  "nextLevel src k prev =
     (case createInitialGrid src k of
        (g, k') \<Rightarrow>
          (prev\<lparr>grid := g, gameStatus := playing, moves := INITIAL_MOVES, cascadeCombo := 0,
                selectedToken := None, isProcessing := False\<rparr>, k'))"

section \<open>Notions for stating the properties\<close>

text \<open>
  A column of the grid read from the top, and the tokens of column \<open>c\<close> from row
  \<open>n\<close> down, in that order.
\<close>

definition column :: "grid \<Rightarrow> nat \<Rightarrow> Token option list" where
  "column g c = map (\<lambda>r. g ! r ! c) [0..<GRID_SIZE]"

definition tokens_of :: "Token option list \<Rightarrow> Token list" where
  "tokens_of xs = map the (filter (\<lambda>x. x \<noteq> None) xs)"

definition survivors :: "grid \<Rightarrow> nat \<Rightarrow> nat \<Rightarrow> Token list" where
  "survivors g c n = tokens_of (map (\<lambda>r. g ! r ! c) [n..<GRID_SIZE])"

text \<open>
  The number of tokens drawn for the columns left of \<open>c\<close>, and the cell that a column
  pass leaves at \<open>(r, c)\<close> of a grid \<open>g\<close> whose matches are cleared: a fresh token
  above, the survivors of the column below, each with its new position.
\<close>

definition draws_before :: "grid \<Rightarrow> nat \<Rightarrow> nat" where
  "draws_before g c = (\<Sum>c' < c. GRID_SIZE - length (survivors g c' 0))"

definition settled_cell :: "source \<Rightarrow> nat \<Rightarrow> grid \<Rightarrow> nat \<Rightarrow> nat \<Rightarrow> Token option" where
  "settled_cell src k g r c =
     (let m = length (survivors g c 0) in
      if r + m < GRID_SIZE
      then Some (new_token src (k + draws_before g c + (GRID_SIZE - m - 1 - r)) r c True)
      else Some ((survivors g c 0 ! (r + m - GRID_SIZE))\<lparr>row := r, col := c\<rparr>))"

text \<open>
  The grid and the number of draws after \<open>n\<close> resolution steps, and the number of
  cells that the step after them clears.
\<close>

fun cascade_iter :: "source \<Rightarrow> nat \<Rightarrow> grid \<Rightarrow> nat \<Rightarrow> grid \<times> nat" where
  "cascade_iter src k g 0 = (g, k)"
| "cascade_iter src k g (Suc n) =
     (case processCascade src k g of (g', _, k') \<Rightarrow> cascade_iter src k' g' n)"

definition step_count :: "source \<Rightarrow> nat \<Rightarrow> grid \<Rightarrow> nat \<Rightarrow> nat" where
  "step_count src k g i =
     (case cascade_iter src k g i of (gi, ki) \<Rightarrow> fst (snd (processCascade src ki gi)))"

text \<open>
  The grids that the operations produce: the initial grid, the grid of a committed
  swap, and the grid returned by a resolution step.
\<close>

inductive produced :: "grid \<Rightarrow> bool" where
  initial: "produced (fst (createInitialGrid src k))"
| committed_swap:
    "produced g \<Longrightarrow> r < GRID_SIZE \<Longrightarrow> c < GRID_SIZE \<Longrightarrow>
     selRow sel < GRID_SIZE \<Longrightarrow> selCol sel < GRID_SIZE \<Longrightarrow> isAdjacent sel r c \<Longrightarrow>
     findMatches (swap_cells g sel r c) \<noteq> [] \<Longrightarrow> produced (swap_cells g sel r c)"
| resolution_step:
    "produced g \<Longrightarrow> processCascade src k g = (g', n, k') \<Longrightarrow> produced g'"

text \<open>
  A full grid of the data model whose tokens all have the kind \<open>k\<close>, and a column
  whose tokens all store their own position.
\<close>

definition uniform :: "TokenType \<Rightarrow> grid \<Rightarrow> bool" where
  "uniform k g \<longleftrightarrow> wf_grid g \<and> positions_ok g \<and>
     list_all (\<lambda>r. list_all (\<lambda>c. holds_kind k (g ! r ! c)) [0..<GRID_SIZE]) [0..<GRID_SIZE]"

definition col_ok :: "grid \<Rightarrow> nat \<Rightarrow> bool" where
  "col_ok g c \<longleftrightarrow> (\<forall>r<GRID_SIZE. \<forall>t. g ! r ! c = Some t \<longrightarrow> row t = r \<and> col t = c)"

text \<open>
  The state of the gravity loop of column \<open>c\<close> on the grid \<open>g\<close> once the rows from
  \<open>n\<close> down are done: the rows above \<open>n\<close> and the other columns are as in \<open>g\<close>, the
  tokens found so far sit at the bottom in their order, each with its new position, and
  the write pointer is just above them.
\<close>

definition fallen :: "grid \<Rightarrow> nat \<Rightarrow> nat \<Rightarrow> grid \<times> int \<Rightarrow> bool" where
  "fallen g c n = (\<lambda>(h, e).
     let S = survivors g c n; m = length S in
     wf_grid h \<and> e = int GRID_SIZE - 1 - int m \<and>
     (\<forall>r<GRID_SIZE. \<forall>c'<GRID_SIZE. c' \<noteq> c \<longrightarrow> h ! r ! c' = g ! r ! c') \<and>
     (\<forall>r<n. h ! r ! c = g ! r ! c) \<and>
     (\<forall>r. n \<le> r \<and> r + m < GRID_SIZE \<longrightarrow> h ! r ! c = None) \<and>
     (\<forall>r<GRID_SIZE. GRID_SIZE \<le> r + m \<longrightarrow>
         h ! r ! c = Some ((S ! (r + m - GRID_SIZE))\<lparr>row := r, col := c\<rparr>)))"

text \<open>The tokens \<open>S\<close> in the rows from \<open>r0\<close> on, each with its row stored.\<close>

definition placed :: "nat \<Rightarrow> Token list \<Rightarrow> Token option list" where
  "placed r0 S = map2 (\<lambda>r t. Some (t\<lparr>row := r\<rparr>)) [r0..<r0 + length S] S"

section \<open>Example data\<close>

text \<open>
  \<open>board f\<close> is the initial grid made from a source that draws the kind \<open>f r c\<close> for
  the cell \<open>(r, c)\<close>. The board of 2x2 blocks of \<open>BTC\<close> and \<open>USDC\<close> has no run.
  \<open>triple_grid\<close> has a triple of \<open>ETH\<close> at row 3, columns 2 to 4, and no other run;
  \<open>gapped_grid\<close> is this grid with the middle cell of the triple emptied and
  \<open>holed_grid\<close> is it with the cell \<open>(0, 0)\<close> emptied. \<open>before_swap\<close> has the third
  \<open>ETH\<close> one row lower, at row 4 of column 4: in \<open>pending_state\<close> that cell is selected,
  and the click on the cell above it gives \<open>after_swap\<close>, from which the cascade with
  the source \<open>two_kinds\<close> clears 3 cells, then 4, and stops at \<open>settled_grid\<close>.
  \<open>eth_grid\<close> is the initial grid when every draw is \<open>ETH\<close>, and \<open>eth_swapped\<close> is it
  after a swap of two neighbours.
\<close>

definition board :: "(nat \<Rightarrow> nat \<Rightarrow> TokenType) \<Rightarrow> grid" where
  "board f = fst (createInitialGrid (\<lambda>k. (f (k div GRID_SIZE) (k mod GRID_SIZE), ''t'')) 0)"

definition blocks :: "nat \<Rightarrow> nat \<Rightarrow> TokenType" where
  "blocks r c = (if (r div 2 + c div 2) mod 2 = 0 then BTC else USDC)"

definition triple_grid :: grid where
  "triple_grid = board (\<lambda>r c. if r = 3 \<and> 2 \<le> c \<and> c \<le> 4 then ETH else blocks r c)"

definition before_swap :: grid where
  "before_swap = board (\<lambda>r c.
     if (r = 3 \<and> (c = 2 \<or> c = 3)) \<or> (r = 4 \<and> c = 4) then ETH
     else if r = 3 \<and> c = 4 then BTC else blocks r c)"

definition two_kinds :: source where
  "two_kinds k = (if even k then BASE else WETH, ''t'')"

definition pending_state :: CascadeState where
  "pending_state =
     \<lparr>grid = before_swap, score = 0, moves = 20, level = 1, targetScore = 1000,
      gameStatus = playing, cascadeCombo = 0,
      selectedToken = Some \<lparr>selRow = 4, selCol = 4\<rparr>, isProcessing = False\<rparr>"

definition after_swap :: grid where
  "after_swap = swap_cells before_swap \<lparr>selRow = 4, selCol = 4\<rparr> 3 4"

definition settled_grid :: grid where
  "settled_grid = (case cascadeLoop two_kinds 0 after_swap 0 0 of
                     Some (g, _) \<Rightarrow> g | None \<Rightarrow> [])"

definition only_eth :: source where
  "only_eth k = (ETH, ''t'')"

definition eth_grid :: grid where
  "eth_grid = fst (createInitialGrid only_eth 0)"

definition eth_swapped :: grid where
  "eth_swapped = swap_cells eth_grid \<lparr>selRow = 4, selCol = 4\<rparr> 3 4"

definition gapped_grid :: grid where
  "gapped_grid = clear_matches [(3, 3)] triple_grid"

definition holed_grid :: grid where
  "holed_grid = clear_matches [(0, 0)] triple_grid"

section \<open>Keys and coordinates\<close>

lemma digit_ne_dash: "d < 10 \<Longrightarrow> digit_char d \<noteq> CHR ''-''"
proof
  assume d: "d < 10" and eq: "digit_char d = CHR ''-''"
  from eq have "(of_char (digit_char d) :: nat) = of_char (CHR ''-'')"
    by (rule arg_cong)
  with d show False by (simp add: digit_char_def)
qed

lemma Number_snoc: "Number (s @ [ch]) = 10 * Number s + (of_char ch - 48)"
  by (simp add: Number_def)

lemma Number_decimal: "Number (decimal n) = n"
proof (induction n rule: decimal.induct)
  case (1 n)
  show ?case
  proof (cases "n < 10")
    case True
    then show ?thesis by (simp add: decimal.simps[of n] Number_def digit_char_def)
  next
    case False
    then show ?thesis using 1 
      by (simp add: decimal.simps[of n] Number_snoc digit_char_def)
  qed
qed

lemma no_dash_decimal: "CHR ''-'' \<notin> set (decimal n)"
proof (induction n rule: decimal.induct)
  case (1 n)
  show ?case
  proof (cases "n < 10")
    case True
    then show ?thesis by (simp add: decimal.simps[of n] digit_ne_dash[symmetric])
  next
    case False
    then show ?thesis using 1 digit_ne_dash[of "n mod 10"]
      by (auto simp add: decimal.simps[of n])
  qed
qed

lemma split_on_no_sep: "sep \<notin> set s \<Longrightarrow> split_on sep s = [s]"
  by (induction s) auto

lemma split_on_append: "sep \<notin> set a \<Longrightarrow> split_on sep (a @ sep # b) = a # split_on sep b"
  by (induction a) auto

lemma parse_key_key: "parse_key (key r c) = (r, c)"
  by (simp add: parse_key_def key_def split_on_append split_on_no_sep
      no_dash_decimal Number_decimal)

lemma key_inj: "key r c = key r' c' \<longleftrightarrow> r = r' \<and> c = c'"
  by (metis parse_key_key prod.inject)

lemma set_set_add: "set (set_add x xs) = insert x (set xs)"
  by (auto simp: set_add_def)

lemma distinct_set_add: "distinct xs \<Longrightarrow> distinct (set_add x xs)"
  by (auto simp: set_add_def)

section \<open>What the match detector returns\<close>

lemma set_fold_union:
  assumes "\<And>x m. set (f x m) = set m \<union> F x"
  shows "set (fold f xs m) = set m \<union> (\<Union>x\<in>set xs. F x)"
  using assms by (induction xs arbitrary: m) auto

lemma distinct_fold:
  assumes "\<And>x m. distinct m \<Longrightarrow> distinct (f x m)" and "distinct m"
  shows "distinct (fold f xs m)"
  using assms by (induction xs arbitrary: m) auto

lemma set_horizontal_check:
  "set (horizontal_check g r c m) =
     set m \<union> (if h_window g r c then {key r c, key r (c + 1), key r (c + 2)} else {})"
  by (auto simp: horizontal_check_def h_window_def set_set_add)

lemma set_vertical_check:
  "set (vertical_check g c r m) =
     set m \<union> (if v_window g r c then {key r c, key (r + 1) c, key (r + 2) c} else {})"
  by (auto simp: vertical_check_def v_window_def set_set_add)

lemma distinct_horizontal_check: "distinct m \<Longrightarrow> distinct (horizontal_check g r c m)"
  by (simp add: horizontal_check_def distinct_set_add)

lemma distinct_vertical_check: "distinct m \<Longrightarrow> distinct (vertical_check g c r m)"
  by (simp add: vertical_check_def distinct_set_add)

lemma set_horizontal_pass: "set (horizontal_pass g m) = set m \<union> h_keys g"
  unfolding horizontal_pass_def h_keys_def
  by (subst set_fold_union[where F = "\<lambda>r. \<Union>c\<in>set [0..<GRID_SIZE - 2].
      if h_window g r c then {key r c, key r (c + 1), key r (c + 2)} else {}"])
    (simp_all add: set_fold_union[where F = "\<lambda>c. if h_window g r c then {key r c, key r (c + 1), key r (c + 2)} else {}" for r] set_horizontal_check)

lemma set_vertical_pass: "set (vertical_pass g m) = set m \<union> v_keys g"
  unfolding vertical_pass_def v_keys_def
  by (subst set_fold_union[where F = "\<lambda>c. \<Union>r\<in>set [0..<GRID_SIZE - 2].
      if v_window g r c then {key r c, key (r + 1) c, key (r + 2) c} else {}"])
    (simp_all add: set_fold_union[where F = "\<lambda>r. if v_window g r c then {key r c, key (r + 1) c, key (r + 2) c} else {}" for c] set_vertical_check)

lemma distinct_passes: "distinct (vertical_pass g (horizontal_pass g []))"
  unfolding vertical_pass_def horizontal_pass_def
  by (intro distinct_fold distinct_horizontal_check distinct_vertical_check) simp_all

lemma between3: "c0 \<le> c \<Longrightarrow> c \<le> c0 + 2 \<Longrightarrow> c = c0 \<or> c = c0 + 1 \<or> c = c0 + (2::nat)"
  by arith

lemma h_keys_image: "h_keys g = (\<lambda>(r, c). key r c) ` h_cells g"
proof (intro set_eqI iffI)
  fix k assume "k \<in> h_keys g"
  then obtain r c where rc: "r < GRID_SIZE" "c < GRID_SIZE - 2" "h_window g r c"
    and k: "k \<in> {key r c, key r (c + 1), key r (c + 2)}"
    by (auto simp: h_keys_def split: if_splits)
  from k obtain c' where "k = key r c'" "c \<le> c'" "c' \<le> c + 2" by auto
  with rc have "(r, c') \<in> h_cells g" by (auto simp: h_cells_def)
  with \<open>k = key r c'\<close> show "k \<in> (\<lambda>(r, c). key r c) ` h_cells g" by force
next
  fix k assume "k \<in> (\<lambda>(r, c). key r c) ` h_cells g"
  then obtain r c c0 where k: "k = key r c" and rc: "r < GRID_SIZE" "c0 < GRID_SIZE - 2"
    "c0 \<le> c" "c \<le> c0 + 2" "h_window g r c0"
    by (auto simp: h_cells_def)
  from between3[OF rc(3,4)] have "k \<in> {key r c0, key r (c0 + 1), key r (c0 + 2)}"
    using k by auto
  with rc have "k \<in> (\<Union>c\<in>set [0..<GRID_SIZE - 2].
      if h_window g r c then {key r c, key r (c + 1), key r (c + 2)} else {})"
    by - (rule UN_I[of c0], auto)
  with rc show "k \<in> h_keys g" unfolding h_keys_def
    by - (rule UN_I[of r], auto)
qed

lemma v_keys_image: "v_keys g = (\<lambda>(r, c). key r c) ` v_cells g"
proof (intro set_eqI iffI)
  fix k assume "k \<in> v_keys g"
  then obtain r c where rc: "c < GRID_SIZE" "r < GRID_SIZE - 2" "v_window g r c"
    and k: "k \<in> {key r c, key (r + 1) c, key (r + 2) c}"
    by (auto simp: v_keys_def split: if_splits)
  from k obtain r' where "k = key r' c" "r \<le> r'" "r' \<le> r + 2" by auto
  with rc have "(r', c) \<in> v_cells g" by (auto simp: v_cells_def)
  with \<open>k = key r' c\<close> show "k \<in> (\<lambda>(r, c). key r c) ` v_cells g" by force
next
  fix k assume "k \<in> (\<lambda>(r, c). key r c) ` v_cells g"
  then obtain r c r0 where k: "k = key r c" and rc: "c < GRID_SIZE" "r0 < GRID_SIZE - 2"
    "r0 \<le> r" "r \<le> r0 + 2" "v_window g r0 c"
    by (auto simp: v_cells_def)
  from between3[OF rc(3,4)] have "k \<in> {key r0 c, key (r0 + 1) c, key (r0 + 2) c}"
    using k by auto
  with rc have "k \<in> (\<Union>r\<in>set [0..<GRID_SIZE - 2].
      if v_window g r c then {key r c, key (r + 1) c, key (r + 2) c} else {})"
    by - (rule UN_I[of r0], auto)
  with rc show "k \<in> v_keys g" unfolding v_keys_def
    by - (rule UN_I[of c], auto)
qed

lemma parse_key_image: "parse_key ` (\<lambda>(r, c). key r c) ` A = A"
  by (force simp: image_iff parse_key_key)

lemma set_findMatches: "set (findMatches g) = h_cells g \<union> v_cells g"
  by (simp add: findMatches_def set_vertical_pass set_horizontal_pass image_Un
      h_keys_image v_keys_image parse_key_image)

lemma distinct_findMatches: "distinct (findMatches g)"
proof -
  have "inj_on parse_key (set (vertical_pass g (horizontal_pass g [])))"
    by (rule inj_onI)
       (auto simp: set_vertical_pass set_horizontal_pass h_keys_image v_keys_image parse_key_key)
  then show ?thesis
    by (simp add: findMatches_def distinct_map distinct_passes)
qed

lemma all_token_types: "k \<in> set TOKEN_TYPES"
  by (cases k) (simp_all add: TOKEN_TYPES_def)

lemma same_kind3_iff:
  "same_kind3 x y z \<longleftrightarrow> (\<exists>k. holds_kind k x \<and> holds_kind k y \<and> holds_kind k z)"
  by (auto simp: same_kind3_def holds_kind_def split: option.splits)

lemma list_all_map_upt:
  "list_all P (map f [a..<b + 1]) \<longleftrightarrow> (\<forall>c. a \<le> c \<and> c \<le> b \<longrightarrow> P (f c))"
  unfolding list_all_iff by (auto simp del: upt_Suc simp: less_Suc_eq_le)

lemma is_run_row_iff:
  "is_run (row_cells g r a b) \<longleftrightarrow>
     a + 2 \<le> b \<and> (\<exists>k. \<forall>c. a \<le> c \<and> c \<le> b \<longrightarrow> holds_kind k (g ! r ! c))"
proof -
  have "3 \<le> length (row_cells g r a b) \<longleftrightarrow> a + 2 \<le> b"
    by (auto simp: row_cells_def)
  then show ?thesis
    unfolding is_run_def row_cells_def list_all_map_upt
    using all_token_types by (simp add: row_cells_def) blast
qed

lemma is_run_col_iff:
  "is_run (col_cells g c a b) \<longleftrightarrow>
     a + 2 \<le> b \<and> (\<exists>k. \<forall>r. a \<le> r \<and> r \<le> b \<longrightarrow> holds_kind k (g ! r ! c))"
proof -
  have "3 \<le> length (col_cells g c a b) \<longleftrightarrow> a + 2 \<le> b"
    by (auto simp: col_cells_def)
  then show ?thesis
    unfolding is_run_def col_cells_def list_all_map_upt
    using all_token_types by (simp add: col_cells_def) blast
qed

lemma window_pos:
  assumes "a \<le> c" "c \<le> b" "a + 2 \<le> (b::nat)"
  obtains c0 where "a \<le> c0" "c0 + 2 \<le> b" "c0 \<le> c" "c \<le> c0 + 2"
proof (cases "c + 2 \<le> b")
  case True
  with assms show ?thesis by (intro that[of c]) auto
next
  case False
  with assms show ?thesis by (intro that[of "b - 2"]) auto
qed

lemma h_cells_run: "(r, c) \<in> h_cells g \<longleftrightarrow> r < GRID_SIZE \<and> c < GRID_SIZE \<and>
   (\<exists>a \<in> set [0..<GRID_SIZE]. \<exists>b \<in> set [0..<GRID_SIZE]. a \<le> c \<and> c \<le> b \<and> is_run (row_cells g r a b))"
  (is "?L \<longleftrightarrow> ?R")
proof
  assume ?L
  then obtain c0 where c0: "r < GRID_SIZE" "c0 < GRID_SIZE - 2" "c0 \<le> c" "c \<le> c0 + 2"
      "h_window g r c0"
    by (auto simp: h_cells_def)
  from c0(5) obtain k where k: "holds_kind k (g ! r ! c0)" "holds_kind k (g ! r ! (c0 + 1))"
      "holds_kind k (g ! r ! (c0 + 2))"
    by (auto simp: h_window_def same_kind3_iff)
  have "\<forall>c'. c0 \<le> c' \<and> c' \<le> c0 + 2 \<longrightarrow> holds_kind k (g ! r ! c')"
    using k between3 by blast
  then have "is_run (row_cells g r c0 (c0 + 2))"
    unfolding is_run_row_iff by blast
  moreover have "c0 \<in> set [0..<GRID_SIZE]" "c0 + 2 \<in> set [0..<GRID_SIZE]" "c < GRID_SIZE"
    using c0 by auto
  ultimately show ?R using c0 by blast
next
  assume ?R
  then obtain a b where ab: "r < GRID_SIZE" "b < GRID_SIZE" "a \<le> c" "c \<le> b"
     "is_run (row_cells g r a b)" by auto
  then obtain k where k: "a + 2 \<le> b" "\<forall>c. a \<le> c \<and> c \<le> b \<longrightarrow> holds_kind k (g ! r ! c)"
    unfolding is_run_row_iff by blast
  from window_pos[OF ab(3,4) k(1)] obtain c0 where
    c0: "a \<le> c0" "c0 + 2 \<le> b" "c0 \<le> c" "c \<le> c0 + 2" by blast
  have "h_window g r c0"
    unfolding h_window_def same_kind3_iff using k(2) c0 by (intro exI[of _ k]) auto
  moreover have "c0 \<in> set [0..<GRID_SIZE - 2]" using c0 ab by auto
  ultimately show ?L using ab c0 by (auto simp: h_cells_def)
qed

lemma v_cells_run: "(r, c) \<in> v_cells g \<longleftrightarrow> r < GRID_SIZE \<and> c < GRID_SIZE \<and>
   (\<exists>a \<in> set [0..<GRID_SIZE]. \<exists>b \<in> set [0..<GRID_SIZE]. a \<le> r \<and> r \<le> b \<and> is_run (col_cells g c a b))"
  (is "?L \<longleftrightarrow> ?R")
proof
  assume ?L
  then obtain r0 where r0: "c < GRID_SIZE" "r0 < GRID_SIZE - 2" "r0 \<le> r" "r \<le> r0 + 2"
      "v_window g r0 c"
    by (auto simp: v_cells_def)
  from r0(5) obtain k where k: "holds_kind k (g ! r0 ! c)" "holds_kind k (g ! (r0 + 1) ! c)"
      "holds_kind k (g ! (r0 + 2) ! c)"
    by (auto simp: v_window_def same_kind3_iff)
  have "\<forall>r'. r0 \<le> r' \<and> r' \<le> r0 + 2 \<longrightarrow> holds_kind k (g ! r' ! c)"
    using k between3 by blast
  then have "is_run (col_cells g c r0 (r0 + 2))"
    unfolding is_run_col_iff by blast
  moreover have "r0 \<in> set [0..<GRID_SIZE]" "r0 + 2 \<in> set [0..<GRID_SIZE]" "r < GRID_SIZE"
    using r0 by auto
  ultimately show ?R using r0 by blast
next
  assume ?R
  then obtain a b where ab: "c < GRID_SIZE" "b < GRID_SIZE" "a \<le> r" "r \<le> b"
     "is_run (col_cells g c a b)" by auto
  then obtain k where k: "a + 2 \<le> b" "\<forall>r. a \<le> r \<and> r \<le> b \<longrightarrow> holds_kind k (g ! r ! c)"
    unfolding is_run_col_iff by blast
  from window_pos[OF ab(3,4) k(1)] obtain r0 where
    r0: "a \<le> r0" "r0 + 2 \<le> b" "r0 \<le> r" "r \<le> r0 + 2" by blast
  have "v_window g r0 c"
    unfolding v_window_def same_kind3_iff using k(2) r0 by (intro exI[of _ k]) auto
  moreover have "r0 \<in> set [0..<GRID_SIZE - 2]" using r0 ab by auto
  ultimately show ?L using ab r0 by (auto simp: v_cells_def)
qed

lemma findMatches_in_run: "p \<in> set (findMatches g) \<longleftrightarrow> in_run g p"
proof (cases p)
  case (Pair r c)
  show ?thesis unfolding Pair set_findMatches Un_iff h_cells_run v_cells_run in_run_def
    by auto
qed

lemma wf_triple_grid: "wf_grid triple_grid"
  by code_simp

lemma findMatches_triple_grid: "findMatches triple_grid = [(3, 2), (3, 3), (3, 4)]"
  by code_simp

text \<open>
  C1. On every 8x8 grid \<open>findMatches\<close> returns, without repetition, exactly the cells
  that lie in a horizontal or vertical run of three or more consecutive tokens of one
  kind; on a grid with no such run it returns the empty list.
\<close>

theorem findMatches_exact:
  assumes "wf_grid g"
  shows "set (findMatches g) = {p. in_run g p} \<and> distinct (findMatches g) \<and>
         ((\<forall>p. \<not> in_run g p) \<longrightarrow> findMatches g = [])"
proof -
  have "set (findMatches g) = {p. in_run g p}"
    using findMatches_in_run by blast
  moreover have "(\<forall>p. \<not> in_run g p) \<longrightarrow> findMatches g = []"
    using findMatches_in_run[of _ g] by (cases "findMatches g") auto
  ultimately show ?thesis using distinct_findMatches by blast
qed

theorem findMatches_exact_witness:
  "wf_grid triple_grid \<and> set (findMatches triple_grid) = {p. in_run triple_grid p} \<and>
   findMatches triple_grid = [(3, 2), (3, 3), (3, 4)]"
  using findMatches_exact[OF wf_triple_grid] wf_triple_grid findMatches_triple_grid
  by simp

section \<open>The examples evaluated\<close>

lemma wf_blocks: "wf_grid (board blocks)"
  by code_simp

lemma findMatches_blocks: "findMatches (board blocks) = []"
  by code_simp

lemma wf_before_swap: "wf_grid before_swap"
  by code_simp

lemma findMatches_after_swap: "findMatches after_swap = [(3, 2), (3, 3), (3, 4)]"
  by code_simp

lemma cascade_example: "cascadeLoop two_kinds 0 after_swap 0 0 = Some (settled_grid, 2, 110, 7)"
  by code_simp

lemma quiet_swap_example:
  "findMatches (swap_cells before_swap \<lparr>selRow = 4, selCol = 4\<rparr> 5 4) = []"
  by code_simp

section \<open>The fixpoint of the resolution step\<close>

text \<open>
  C3. On a grid in which \<open>findMatches\<close> finds nothing, one resolution step returns
  the same grid and the count 0 and draws nothing; applying it again changes nothing.
\<close>

theorem processCascade_fixpoint:
  assumes "wf_grid g" and "findMatches g = []"
  shows "processCascade src k g = (g, 0, k) \<and>
         (case processCascade src k g of (g', n, k') \<Rightarrow> processCascade src k' g' = (g, 0, k))"
  using assms by (simp add: processCascade_def)

theorem processCascade_fixpoint_witness:
  "wf_grid (board blocks) \<and> findMatches (board blocks) = [] \<and>
   processCascade two_kinds 0 (board blocks) = (board blocks, 0, 0)"
  using processCascade_fixpoint[OF wf_blocks findMatches_blocks, of two_kinds 0]
    wf_blocks findMatches_blocks by simp

section \<open>The end of a cascade and the handling of a click\<close>

lemma floor_three_halves: "\<lfloor>real_of_int t * 1.5\<rfloor> = t * 3 div 2"
proof -
  have "real_of_int t * 1.5 = real_of_int (t * 3) / real_of_int 2" by simp
  then show ?thesis by (simp only: floor_divide_of_int_eq)
qed

lemma bit_length_le: "a < 2 ^ k \<Longrightarrow> bit_length a \<le> k"
proof (induction k arbitrary: a)
  case 0
  then show ?case by (simp add: bit_length.simps[of 0])
next
  case (Suc k)
  then have "a div 2 < 2 ^ k" by simp
  from Suc.IH[OF this] show ?case by (simp add: bit_length.simps[of a])
qed

lemma round53_exact: "\<bar>m\<bar> < 2 ^ 53 \<Longrightarrow> round53 m = m"
proof -
  assume "\<bar>m\<bar> < 2 ^ 53"
  then have "nat \<bar>m\<bar> < 2 ^ 53" by simp
  from bit_length_le[OF this] show ?thesis by (simp add: round53_def)
qed

lemma floor_times_1_5_exact:
  assumes "\<bar>3 * t\<bar> < 2 ^ 53"
  shows "\<lfloor>times_1_5 t\<rfloor> = t * 3 div 2"
proof -
  have "\<lfloor>times_1_5 t\<rfloor> = \<lfloor>real_of_int (3 * t) / real_of_int 2\<rfloor>"
    by (simp add: times_1_5_def round53_exact[OF assms])
  also have "\<dots> = 3 * t div 2" by (simp only: floor_divide_of_int_eq)
  finally show ?thesis by (simp only: mult.commute)
qed

lemma bit_length_at_tie: "bit_length 18014398509481983 = 54"
  by (simp add: bit_length.simps)

lemma round53_at_tie: "round53 18014398509481983 = 18014398509481984"
  by (simp add: round53_def bit_length_at_tie round_to_even_def)

lemma floor_times_1_5_rounded: "\<lfloor>times_1_5 6004799503160661\<rfloor> = 9007199254740992"
  by (simp add: times_1_5_def round53_at_tie)

text \<open>
  C5. When a cascade sequence completes on a state whose status is \<open>playing\<close> and the
  new score is at or past the target, the status becomes \<open>levelComplete\<close>, the level
  goes up by one, the target becomes the floor of the binary64 product of the old
  target and 1.5, and the moves are reset to 20. As long as three times the target is
  below \<open>2 ^ 53\<close> in magnitude the product is exact and the new target is the floor of
  1.5 times the old one.
\<close>

theorem level_complete:
  assumes "processCascadingMatches src k g prev = Some (s', k')"
    and "gameStatus prev = playing"
    and "targetScore prev \<le> score s'"
  shows "gameStatus s' = levelComplete \<and> level s' = level prev + 1 \<and>
         targetScore s' = \<lfloor>times_1_5 (targetScore prev)\<rfloor> \<and>
         (\<bar>3 * targetScore prev\<bar> < 2 ^ 53 \<longrightarrow>
            targetScore s' = \<lfloor>real_of_int (targetScore prev) * 1.5\<rfloor> \<and>
            targetScore s' = targetScore prev * 3 div 2) \<and>
         moves s' = 20"
proof -
  from assms(1) obtain g' combo acc where
    s': "s' = finishCascade g' combo acc prev"
    by (auto simp: processCascadingMatches_def split: option.splits)
  from assms(3) have up: "targetScore prev \<le> score prev + acc"
    by (simp add: s' finishCascade_def Let_def)
  have main: "gameStatus s' = levelComplete" "level s' = level prev + 1"
    "targetScore s' = \<lfloor>times_1_5 (targetScore prev)\<rfloor>" "moves s' = 20"
    using assms(2) up by (simp_all add: s' finishCascade_def Let_def INITIAL_MOVES_def)
  have "targetScore s' = \<lfloor>real_of_int (targetScore prev) * 1.5\<rfloor> \<and>
        targetScore s' = targetScore prev * 3 div 2"
    if "\<bar>3 * targetScore prev\<bar> < 2 ^ 53"
    unfolding floor_three_halves main(3) floor_times_1_5_exact[OF that] by (rule conjI; rule refl)
  with main show ?thesis by blast
qed

theorem level_complete_witness:
  "processCascadingMatches two_kinds 0 after_swap (pending_state\<lparr>score := 890\<rparr>) =
     Some (finishCascade settled_grid 2 110 (pending_state\<lparr>score := 890\<rparr>), 7) \<and>
   gameStatus (pending_state\<lparr>score := 890\<rparr>) = playing \<and>
   score (finishCascade settled_grid 2 110 (pending_state\<lparr>score := 890\<rparr>)) = 1000 \<and>
   gameStatus (finishCascade settled_grid 2 110 (pending_state\<lparr>score := 890\<rparr>)) = levelComplete \<and>
   level (finishCascade settled_grid 2 110 (pending_state\<lparr>score := 890\<rparr>)) = 2 \<and>
   targetScore (finishCascade settled_grid 2 110 (pending_state\<lparr>score := 890\<rparr>)) = 1500 \<and>
   moves (finishCascade settled_grid 2 110 (pending_state\<lparr>score := 890\<rparr>)) = 20"
proof -
  let ?prev = "pending_state\<lparr>score := 890\<rparr>"
  let ?s = "finishCascade settled_grid 2 110 ?prev"
  have run: "processCascadingMatches two_kinds 0 after_swap ?prev = Some (?s, 7)"
    by (simp add: processCascadingMatches_def cascade_example)
  have st: "gameStatus ?prev = playing" by (simp add: pending_state_def)
  have sc: "score ?s = 1000" by (simp add: finishCascade_def pending_state_def Let_def)
  have tg: "targetScore ?prev \<le> score ?s" by (simp add: sc) (simp add: pending_state_def)
  have tp: "targetScore ?prev = 1000" "level ?prev = 1" by (simp_all add: pending_state_def)
  have small: "\<bar>3 * targetScore ?prev\<bar> < 2 ^ 53" by (simp add: tp)
  from level_complete[OF run st tg] small run st sc tp show ?thesis by simp
qed

text \<open>
  C6. An adjacent swap whose swapped grid holds no match is discarded: the state keeps
  its grid, moves and every other field, only the pending selection is cleared, and no
  cascade is scheduled.
\<close>

theorem swap_without_match_discarded:
  assumes "wf_grid (grid s)" and "r < GRID_SIZE" and "c < GRID_SIZE"
    and "selRow sel < GRID_SIZE" and "selCol sel < GRID_SIZE"
    and "gameStatus s = playing" and "\<not> isProcessing s"
    and "selectedToken s = Some sel" and "isAdjacent sel r c"
    and "findMatches (swap_cells (grid s) sel r c) = []"
  shows "handleTokenClick s r c = (s\<lparr>selectedToken := None\<rparr>, None)"
  using assms by (simp add: handleTokenClick_def)

theorem swap_without_match_discarded_witness:
  "wf_grid (grid pending_state) \<and> gameStatus pending_state = playing \<and> \<not> isProcessing pending_state \<and>
   selectedToken pending_state = Some \<lparr>selRow = 4, selCol = 4\<rparr> \<and>
   isAdjacent \<lparr>selRow = 4, selCol = 4\<rparr> 5 4 \<and>
   findMatches (swap_cells (grid pending_state) \<lparr>selRow = 4, selCol = 4\<rparr> 5 4) = [] \<and>
   handleTokenClick pending_state 5 4 = (pending_state\<lparr>selectedToken := None\<rparr>, None)"
proof -
  let ?sel = "\<lparr>selRow = 4, selCol = 4\<rparr>"
  have g: "grid pending_state = before_swap" by (simp add: pending_state_def)
  have 1: "wf_grid (grid pending_state)" by (simp add: g wf_before_swap)
  have 2: "(5::nat) < GRID_SIZE" "(4::nat) < GRID_SIZE" "selRow ?sel < GRID_SIZE"
    "selCol ?sel < GRID_SIZE" by (simp_all add: GRID_SIZE_def)
  have 3: "gameStatus pending_state = playing" "\<not> isProcessing pending_state"
    "selectedToken pending_state = Some ?sel" by (simp_all add: pending_state_def)
  have 4: "isAdjacent ?sel 5 4" by (simp add: isAdjacent_def)
  have 5: "findMatches (swap_cells (grid pending_state) ?sel 5 4) = []"
    by (simp add: g quiet_swap_example)
  from swap_without_match_discarded[OF 1 2 3 4 5] 1 3 4 5 show ?thesis by simp
qed

text \<open>
  C7. An adjacent swap whose swapped grid holds a match takes exactly one move and
  schedules the cascade; if that leaves no move while the score is below the target, the
  status becomes \<open>gameOver\<close> at once. The end of the cascade, whatever its length,
  leaves the moves as they are unless the level completes.
\<close>

theorem matching_swap_spends_one_move:
  assumes "wf_grid (grid s)" and "r < GRID_SIZE" and "c < GRID_SIZE"
    and "selRow sel < GRID_SIZE" and "selCol sel < GRID_SIZE"
    and "gameStatus s = playing" and "\<not> isProcessing s"
    and "selectedToken s = Some sel" and "isAdjacent sel r c"
    and "findMatches (swap_cells (grid s) sel r c) \<noteq> []"
    and "handleTokenClick s r c = (s1, scheduled)"
  shows "moves s1 = moves s - 1 \<and>
         scheduled = Some (swap_cells (grid s) sel r c) \<and>
         (moves s1 = 0 \<and> score s < targetScore s \<longrightarrow> gameStatus s1 = gameOver) \<and>
         (\<forall>g combo total.
             gameStatus (finishCascade g combo total s1) \<noteq> levelComplete \<longrightarrow>
             moves (finishCascade g combo total s1) = moves s - 1)"
  using assms by (auto simp: handleTokenClick_def finishCascade_def Let_def)

theorem matching_swap_spends_one_move_witness:
  "wf_grid (grid (pending_state\<lparr>moves := 1, score := 800\<rparr>)) \<and>
   isAdjacent \<lparr>selRow = 4, selCol = 4\<rparr> 3 4 \<and>
   findMatches (swap_cells (grid (pending_state\<lparr>moves := 1, score := 800\<rparr>))
      \<lparr>selRow = 4, selCol = 4\<rparr> 3 4) \<noteq> [] \<and>
   moves (fst (handleTokenClick (pending_state\<lparr>moves := 1, score := 800\<rparr>) 3 4)) = 0 \<and>
   gameStatus (fst (handleTokenClick (pending_state\<lparr>moves := 1, score := 800\<rparr>) 3 4)) = gameOver \<and>
   snd (handleTokenClick (pending_state\<lparr>moves := 1, score := 800\<rparr>) 3 4) = Some after_swap"
proof -
  let ?s = "pending_state\<lparr>moves := 1, score := 800\<rparr>"
  let ?sel = "\<lparr>selRow = 4, selCol = 4\<rparr>"
  have g: "grid pending_state = before_swap" by (simp add: pending_state_def)
  have sw: "swap_cells before_swap ?sel 3 4 = after_swap" by (simp add: after_swap_def)
  have 1: "wf_grid (grid ?s)" by (simp add: g wf_before_swap)
  have 2: "(3::nat) < GRID_SIZE" "(4::nat) < GRID_SIZE" "selRow ?sel < GRID_SIZE"
    "selCol ?sel < GRID_SIZE" by (simp_all add: GRID_SIZE_def)
  have 3: "gameStatus ?s = playing" "\<not> isProcessing ?s" "selectedToken ?s = Some ?sel"
    by (simp_all add: pending_state_def)
  have 4: "isAdjacent ?sel 3 4" by (simp add: isAdjacent_def)
  have 5: "findMatches (swap_cells (grid ?s) ?sel 3 4) \<noteq> []"
    by (simp add: g sw findMatches_after_swap)
  have 6: "handleTokenClick ?s 3 4 = (fst (handleTokenClick ?s 3 4), snd (handleTokenClick ?s 3 4))"
    by simp
  have 7: "moves ?s = 1" "score ?s < targetScore ?s" by (simp_all add: pending_state_def)
  from matching_swap_spends_one_move[OF 1 2 3 4 5 6] 1 4 5 7 show ?thesis by (simp add: g sw)
qed

section \<open>Cells of a grid under assignment\<close>

lemma GRID_SIZE_pos: "2 < GRID_SIZE"
  by (simp add: GRID_SIZE_def)

lemma wf_grid_row: "wf_grid g \<Longrightarrow> r < GRID_SIZE \<Longrightarrow> length (g ! r) = GRID_SIZE"
  by (simp add: wf_grid_def list_all_length)

lemma wf_set_cell: "wf_grid g \<Longrightarrow> wf_grid (set_cell g r c v)"
proof -
  assume wf: "wf_grid g"
  have "length (g[r := (g ! r)[c := v]] ! n) = GRID_SIZE" if "n < GRID_SIZE" for n
  proof (cases "n = r")
    case True
    with that wf show ?thesis by (simp add: wf_grid_def wf_grid_row)
  next
    case False
    with that wf show ?thesis by (simp add: wf_grid_row)
  qed
  with wf show ?thesis
    by (simp add: wf_grid_def set_cell_def list_all_length)
qed

lemma nth_set_cell:
  assumes "wf_grid g" and "r' < GRID_SIZE" and "c' < GRID_SIZE"
  shows "set_cell g r c v ! r' ! c' = (if r' = r \<and> c' = c then v else g ! r' ! c')"
proof -
  have len: "length g = GRID_SIZE" "length (g ! r') = GRID_SIZE"
    using assms by (simp_all add: wf_grid_def wf_grid_row)
  show ?thesis
  proof (cases "r' = r")
    case True
    with len assms show ?thesis by (simp add: set_cell_def nth_list_update)
  next
    case False
    then show ?thesis by (simp add: set_cell_def)
  qed
qed

lemma wf_clear_matches: "wf_grid g \<Longrightarrow> wf_grid (clear_matches ms g)"
  unfolding clear_matches_def
  by (induction ms arbitrary: g) (auto simp: wf_set_cell)

lemma nth_clear_matches:
  assumes "wf_grid g" and "r < GRID_SIZE" and "c < GRID_SIZE"
  shows "clear_matches ms g ! r ! c = (if (r, c) \<in> set ms then None else g ! r ! c)"
  using assms(1)
proof (induction ms arbitrary: g)
  case Nil
  then show ?case by (simp add: clear_matches_def)
next
  case (Cons m ms)
  obtain r0 c0 where m: "m = (r0, c0)" by (cases m)
  have step: "clear_matches (m # ms) g = clear_matches ms (set_cell g r0 c0 None)"
    by (simp add: clear_matches_def m)
  show ?case
    unfolding step
    using Cons.IH[OF wf_set_cell[OF Cons.prems]] nth_set_cell[OF Cons.prems assms(2,3)]
    by (auto simp: m)
qed

section \<open>The gravity loop of one column\<close>

lemma tokens_of_Cons:
  "tokens_of (x # xs) = (case x of None \<Rightarrow> tokens_of xs | Some t \<Rightarrow> t # tokens_of xs)"
  by (simp add: tokens_of_def split: option.splits)

lemma survivors_step:
  "n < GRID_SIZE \<Longrightarrow> survivors g c n =
     (case g ! n ! c of None \<Rightarrow> survivors g c (Suc n) | Some t \<Rightarrow> t # survivors g c (Suc n))"
  by (simp add: survivors_def upt_conv_Cons tokens_of_Cons split: option.splits)

lemma survivors_end: "survivors g c GRID_SIZE = []"
  by (simp add: survivors_def tokens_of_def)

lemma length_survivors: "n \<le> GRID_SIZE \<Longrightarrow> length (survivors g c n) \<le> GRID_SIZE - n"
proof (induction n rule: inc_induct)
  case base
  show ?case by (simp add: survivors_end)
next
  case (step n)
  then show ?case by (auto simp: survivors_step split: option.splits)
qed

lemma survivors_from_column:
  "n \<le> GRID_SIZE \<Longrightarrow> t \<in> set (survivors g c n) \<Longrightarrow> \<exists>r. n \<le> r \<and> r < GRID_SIZE \<and> g ! r ! c = Some t"
proof (induction n rule: inc_induct)
  case base
  then show ?case by (simp add: survivors_end)
next
  case (step n)
  show ?case
  proof (cases "g ! n ! c")
    case None
    with step obtain r where "Suc n \<le> r" "r < GRID_SIZE" "g ! r ! c = Some t"
      by (auto simp: survivors_step)
    then show ?thesis by (intro exI[of _ r]) simp
  next
    case (Some u)
    show ?thesis
    proof (cases "t = u")
      case True
      with Some step.hyps show ?thesis by (intro exI[of _ n]) simp
    next
      case False
      with Some step obtain r where "Suc n \<le> r" "r < GRID_SIZE" "g ! r ! c = Some t"
        by (auto simp: survivors_step)
      then show ?thesis by (intro exI[of _ r]) simp
    qed
  qed
qed

lemma fallen_start: "wf_grid g \<Longrightarrow> fallen g c GRID_SIZE (g, int GRID_SIZE - 1)"
  by (auto simp: fallen_def survivors_end)

lemma fallen_step:
  assumes wf: "wf_grid g" and ok: "col_ok g c" and c: "c < GRID_SIZE" and n: "n < GRID_SIZE"
    and inv: "fallen g c (Suc n) (h, e)"
  shows "fallen g c n (gravity_step c n (h, e))"
proof -
  let ?S = "survivors g c (Suc n)"
  let ?m = "length ?S"
  from inv have wfh: "wf_grid h" and e: "e = int GRID_SIZE - 1 - int ?m"
    and others: "\<And>r c'. r < GRID_SIZE \<Longrightarrow> c' < GRID_SIZE \<Longrightarrow> c' \<noteq> c \<Longrightarrow> h ! r ! c' = g ! r ! c'"
    and above: "\<And>r. r < Suc n \<Longrightarrow> h ! r ! c = g ! r ! c"
    and empty: "\<And>r. Suc n \<le> r \<Longrightarrow> r + ?m < GRID_SIZE \<Longrightarrow> h ! r ! c = None"
    and below: "\<And>r. r < GRID_SIZE \<Longrightarrow> GRID_SIZE \<le> r + ?m \<Longrightarrow>
         h ! r ! c = Some ((?S ! (r + ?m - GRID_SIZE))\<lparr>row := r, col := c\<rparr>)"
    by (simp_all add: fallen_def Let_def)
  have m: "?m \<le> GRID_SIZE - Suc n" using n by (intro length_survivors) simp
  have hn: "h ! n ! c = g ! n ! c" using above by simp
  show ?thesis
  proof (cases "g ! n ! c")
    case None
    then have S: "survivors g c n = ?S" using n by (simp add: survivors_step)
    have "gravity_step c n (h, e) = (h, e)" by (simp add: gravity_step_def hn None)
    moreover have "fallen g c n (h, e)"
      unfolding fallen_def S Let_def prod.case
    proof (intro conjI allI impI)
      fix r assume "n \<le> r \<and> r + ?m < GRID_SIZE"
      then show "h ! r ! c = None"
        using empty[of r] hn None by (cases "r = n") auto
    qed (use wfh e others above below in auto)
    ultimately show ?thesis by simp
  next
    case (Some t)
    then have S: "survivors g c n = t # ?S" using n by (simp add: survivors_step)
    from ok Some n have t: "row t = n" "col t = c" by (auto simp: col_ok_def)
    show ?thesis
    proof (cases "int n = e")
      case True
      then have nm: "n + ?m + 1 = GRID_SIZE" using e m n by simp
      have gs: "gravity_step c n (h, e) = (h, e - 1)"
        by (simp add: gravity_step_def hn Some True)
      have "fallen g c n (h, e - 1)"
        unfolding fallen_def S Let_def prod.case
      proof (intro conjI allI impI)
        fix r assume "n \<le> r \<and> r + length (t # ?S) < GRID_SIZE"
        with nm show "h ! r ! c = None" by simp
      next
        fix r assume r: "r < GRID_SIZE" "GRID_SIZE \<le> r + length (t # ?S)"
        show "h ! r ! c = Some (((t # ?S) ! (r + length (t # ?S) - GRID_SIZE))\<lparr>row := r, col := c\<rparr>)"
        proof (cases "r = n")
          case True
          with nm hn Some t show ?thesis by simp
        next
          case False
          with r nm have "GRID_SIZE \<le> r + ?m" by simp
          from below[OF r(1) this] r nm False show ?thesis
            by (simp add: nth_Cons')
        qed
      qed (use wfh e others above in auto)
      with gs show ?thesis by simp
    next
      case False
      then have nm: "n + ?m + 1 < GRID_SIZE" using e m n by simp
      define e' where "e' = GRID_SIZE - 1 - ?m"
      have ne: "nat e = e'" using e nm by (simp add: e'_def)
      have e'n: "e' \<noteq> n" "e' < GRID_SIZE" "n < e'" "e' + ?m + 1 = GRID_SIZE"
        using nm by (simp_all add: e'_def)
      define h1 where "h1 = set_cell h e' c (Some (t\<lparr>row := e', col := c\<rparr>))"
      define h2 where "h2 = set_cell h1 n c None"
      have gs: "gravity_step c n (h, e) = (h2, e - 1)"
        by (simp add: gravity_step_def hn Some False ne h1_def h2_def)
      have wf1: "wf_grid h1" unfolding h1_def by (rule wf_set_cell[OF wfh])
      have cell: "h2 ! r ! c' =
          (if r = n \<and> c' = c then None
           else if r = e' \<and> c' = c then Some (t\<lparr>row := e', col := c\<rparr>) else h ! r ! c')"
        if "r < GRID_SIZE" "c' < GRID_SIZE" for r c'
      proof -
        have a: "h2 ! r ! c' = (if r = n \<and> c' = c then None else h1 ! r ! c')"
          unfolding h2_def by (rule nth_set_cell[OF wf1 that])
        have b: "h1 ! r ! c' =
            (if r = e' \<and> c' = c then Some (t\<lparr>row := e', col := c\<rparr>) else h ! r ! c')"
          unfolding h1_def by (rule nth_set_cell[OF wfh that])
        show ?thesis by (simp only: a b)
      qed
      have "fallen g c n (h2, e - 1)"
        unfolding fallen_def S Let_def prod.case
      proof (intro conjI allI impI)
        show "wf_grid h2" unfolding h2_def by (intro wf_set_cell wf1)
        show "e - 1 = int GRID_SIZE - 1 - int (length (t # ?S))" using e by simp
      next
        fix r c' assume "r < GRID_SIZE" "c' < GRID_SIZE" "c' \<noteq> c"
        then show "h2 ! r ! c' = g ! r ! c'" by (simp add: cell others)
      next
        fix r assume "r < n"
        then show "h2 ! r ! c = g ! r ! c" using n e'n c by (simp add: cell above)
      next
        fix r assume r: "n \<le> r \<and> r + length (t # ?S) < GRID_SIZE"
        show "h2 ! r ! c = None"
        proof (cases "r = n")
          case True
          with n c show ?thesis by (simp add: cell)
        next
          case False
          with r e'n have "r \<noteq> e'" "Suc n \<le> r" "r + ?m < GRID_SIZE" "r < GRID_SIZE" by simp_all
          with c False empty[of r] show ?thesis by (simp add: cell)
        qed
      next
        fix r assume r: "r < GRID_SIZE" "GRID_SIZE \<le> r + length (t # ?S)"
        show "h2 ! r ! c = Some (((t # ?S) ! (r + length (t # ?S) - GRID_SIZE))\<lparr>row := r, col := c\<rparr>)"
        proof (cases "r = e'")
          case True
          with r e'n c show ?thesis by (simp add: cell)
        next
          case False
          with r e'n have ge: "GRID_SIZE \<le> r + ?m" and rn: "r \<noteq> n" by simp_all
          from ge have "r + length (t # ?S) - GRID_SIZE = Suc (r + ?m - GRID_SIZE)" by simp
          with below[OF r(1) ge] r False rn c show ?thesis
            by (simp add: cell)
        qed
      qed
      with gs show ?thesis by simp
    qed
  qed
qed

lemma rev_upt_step: "n < m \<Longrightarrow> rev [n..<m] = rev [Suc n..<m] @ [n]"
  by (simp add: upt_conv_Cons)

lemma gravity_loop:
  assumes wf: "wf_grid g" and ok: "col_ok g c" and c: "c < GRID_SIZE" and n: "n \<le> GRID_SIZE"
  shows "fallen g c n (fold (gravity_step c) (rev [n..<GRID_SIZE]) (g, int GRID_SIZE - 1))"
  using n
proof (induction n rule: inc_induct)
  case base
  show ?case by (simp add: fallen_start[OF wf])
next
  case (step n)
  obtain h e where he: "fold (gravity_step c) (rev [Suc n..<GRID_SIZE]) (g, int GRID_SIZE - 1) = (h, e)"
    by (cases "fold (gravity_step c) (rev [Suc n..<GRID_SIZE]) (g, int GRID_SIZE - 1)")
  from step.IH he have "fallen g c (Suc n) (h, e)" by simp
  from fallen_step[OF wf ok c step.hyps(2) this] show ?case
    by (simp add: rev_upt_step[OF step.hyps(2)] he)
qed

section \<open>The refill, the column pass and the resolution step\<close>

lemma refill_loop:
  assumes "c < GRID_SIZE" and "j \<le> GRID_SIZE" and "wf_grid h"
  shows "\<exists>h'. fold (refill_step src c) (rev [0..<j]) (h, k) = (h', k + j) \<and> wf_grid h' \<and>
     (\<forall>r<GRID_SIZE. \<forall>c'<GRID_SIZE. h' ! r ! c' =
        (if c' = c \<and> r < j then Some (new_token src (k + (j - 1 - r)) r c True)
         else h ! r ! c'))"
  using assms(2,3)
proof (induction j arbitrary: h k)
  case 0
  then show ?case by simp
next
  case (Suc j)
  define h1 where "h1 = set_cell h j c (Some (new_token src k j c True))"
  have wf1: "wf_grid h1" unfolding h1_def by (rule wf_set_cell[OF Suc.prems(2)])
  from Suc.prems have j: "j \<le> GRID_SIZE" "j < GRID_SIZE" by simp_all
  from Suc.IH[OF j(1) wf1, of "Suc k"] obtain h' where
    h': "fold (refill_step src c) (rev [0..<j]) (h1, Suc k) = (h', Suc k + j)" "wf_grid h'"
    and cells: "\<And>r c'. r < GRID_SIZE \<Longrightarrow> c' < GRID_SIZE \<Longrightarrow> h' ! r ! c' =
        (if c' = c \<and> r < j then Some (new_token src (Suc k + (j - 1 - r)) r c True)
         else h1 ! r ! c')"
    by blast
  have "fold (refill_step src c) (rev [0..<Suc j]) (h, k) = (h', k + Suc j)"
    using h'(1) by (simp add: refill_step_def h1_def)
  moreover have "h' ! r ! c' =
        (if c' = c \<and> r < Suc j then Some (new_token src (k + (Suc j - 1 - r)) r c True)
         else h ! r ! c')" if rc: "r < GRID_SIZE" "c' < GRID_SIZE" for r c'
  proof -
    have a: "h1 ! r ! c' = (if r = j \<and> c' = c then Some (new_token src k j c True) else h ! r ! c')"
      unfolding h1_def by (rule nth_set_cell[OF Suc.prems(2) rc])
    have b: "r < j \<Longrightarrow> Suc k + (j - 1 - r) = k + (Suc j - 1 - r)" by simp
    show ?thesis unfolding cells[OF rc] a using b by (auto simp: less_Suc_eq)
  qed
  ultimately show ?case using h'(2) by blast
qed

lemma column_step_cells:
  assumes wf: "wf_grid g" and ok: "col_ok g c" and c: "c < GRID_SIZE"
  shows "\<exists>g'. column_step src c (g, k) = (g', k + (GRID_SIZE - length (survivors g c 0))) \<and>
     wf_grid g' \<and>
     (\<forall>r<GRID_SIZE. \<forall>c'<GRID_SIZE. g' ! r ! c' =
        (if c' = c then
           (if r + length (survivors g c 0) < GRID_SIZE
            then Some (new_token src (k + (GRID_SIZE - length (survivors g c 0) - 1 - r)) r c True)
            else Some ((survivors g c 0 ! (r + length (survivors g c 0) - GRID_SIZE))\<lparr>row := r, col := c\<rparr>))
         else g ! r ! c'))"
proof -
  define S where "S = survivors g c 0"
  define m where "m = length S"
  have m: "m \<le> GRID_SIZE" using length_survivors[of 0 g c] by (simp add: m_def S_def)
  obtain h e where he: "fold (gravity_step c) (rev [0..<GRID_SIZE]) (g, int GRID_SIZE - 1) = (h, e)"
    by (cases "fold (gravity_step c) (rev [0..<GRID_SIZE]) (g, int GRID_SIZE - 1)")
  from gravity_loop[OF wf ok c, of 0] he have f: "fallen g c 0 (h, e)" by simp
  then have wfh: "wf_grid h" and e: "e = int GRID_SIZE - 1 - int m"
    and others: "\<And>r c'. r < GRID_SIZE \<Longrightarrow> c' < GRID_SIZE \<Longrightarrow> c' \<noteq> c \<Longrightarrow> h ! r ! c' = g ! r ! c'"
    and empty: "\<And>r. r + m < GRID_SIZE \<Longrightarrow> h ! r ! c = None"
    and below: "\<And>r. r < GRID_SIZE \<Longrightarrow> GRID_SIZE \<le> r + m \<Longrightarrow>
         h ! r ! c = Some ((S ! (r + m - GRID_SIZE))\<lparr>row := r, col := c\<rparr>)"
    by (simp_all add: fallen_def Let_def S_def m_def)
  have j: "nat (e + 1) = GRID_SIZE - m" using e m by simp
  from refill_loop[OF c _ wfh, of "GRID_SIZE - m" src k] obtain g' where
    g': "fold (refill_step src c) (rev [0..<GRID_SIZE - m]) (h, k) = (g', k + (GRID_SIZE - m))"
      "wf_grid g'"
    and cells: "\<And>r c'. r < GRID_SIZE \<Longrightarrow> c' < GRID_SIZE \<Longrightarrow> g' ! r ! c' =
        (if c' = c \<and> r < GRID_SIZE - m
         then Some (new_token src (k + (GRID_SIZE - m - 1 - r)) r c True)
         else h ! r ! c')"
    by auto
  have "column_step src c (g, k) = (g', k + (GRID_SIZE - m))"
    by (simp add: column_step_def he j g'(1))
  moreover have "g' ! r ! c' =
        (if c' = c then
           (if r + m < GRID_SIZE
            then Some (new_token src (k + (GRID_SIZE - m - 1 - r)) r c True)
            else Some ((S ! (r + m - GRID_SIZE))\<lparr>row := r, col := c\<rparr>))
         else g ! r ! c')" if rc: "r < GRID_SIZE" "c' < GRID_SIZE" for r c'
  proof (cases "c' = c")
    case True
    show ?thesis
    proof (cases "r + m < GRID_SIZE")
      case True
      then have "r < GRID_SIZE - m" by simp
      with True \<open>c' = c\<close> cells[OF rc] show ?thesis by simp
    next
      case False
      then have "\<not> r < GRID_SIZE - m" "GRID_SIZE \<le> r + m" by simp_all
      with \<open>c' = c\<close> cells[OF rc] below[OF rc(1)] False show ?thesis by simp
    qed
  next
    case False
    with cells[OF rc] others[OF rc] show ?thesis by simp
  qed
  ultimately show ?thesis using g'(2) unfolding S_def[symmetric] m_def[symmetric] by blast
qed

lemma survivors_cong:
  "(\<And>r. r < GRID_SIZE \<Longrightarrow> g1 ! r ! c = g ! r ! c) \<Longrightarrow> survivors g1 c n = survivors g c n"
  unfolding survivors_def by (rule arg_cong[of _ _ tokens_of]) (rule map_cong, auto)

lemma draws_before_Suc:
  "draws_before g (Suc n) = draws_before g n + (GRID_SIZE - length (survivors g n 0))"
  by (simp add: draws_before_def)

lemma columns_loop:
  assumes wf: "wf_grid g" and ok: "\<And>c. c < GRID_SIZE \<Longrightarrow> col_ok g c" and n: "n \<le> GRID_SIZE"
  shows "\<exists>g'. fold (column_step src) [0..<n] (g, k) = (g', k + draws_before g n) \<and> wf_grid g' \<and>
     (\<forall>r<GRID_SIZE. \<forall>c<GRID_SIZE. g' ! r ! c =
        (if c < n then settled_cell src k g r c else g ! r ! c))"
  using n
proof (induction n)
  case 0
  with wf show ?case by (simp add: draws_before_def)
next
  case (Suc n)
  then have n: "n < GRID_SIZE" by simp
  from Suc obtain g1 where
    g1: "fold (column_step src) [0..<n] (g, k) = (g1, k + draws_before g n)" "wf_grid g1"
    and cells1: "\<And>r c. r < GRID_SIZE \<Longrightarrow> c < GRID_SIZE \<Longrightarrow> g1 ! r ! c =
        (if c < n then settled_cell src k g r c else g ! r ! c)"
    by auto
  have same: "g1 ! r ! n = g ! r ! n" if "r < GRID_SIZE" for r
    using cells1[OF that n] by simp
  have S: "survivors g1 n 0 = survivors g n 0" by (rule survivors_cong) (rule same)
  have ok1: "col_ok g1 n" using ok[OF n] same by (simp add: col_ok_def)
  from column_step_cells[OF g1(2) ok1 n, of src "k + draws_before g n"] obtain g' where
    g': "column_step src n (g1, k + draws_before g n) =
           (g', k + draws_before g n + (GRID_SIZE - length (survivors g n 0)))" "wf_grid g'"
    and cells: "\<And>r c'. r < GRID_SIZE \<Longrightarrow> c' < GRID_SIZE \<Longrightarrow> g' ! r ! c' =
        (if c' = n then
           (if r + length (survivors g n 0) < GRID_SIZE
            then Some (new_token src (k + draws_before g n + (GRID_SIZE - length (survivors g n 0) - 1 - r)) r n True)
            else Some ((survivors g n 0 ! (r + length (survivors g n 0) - GRID_SIZE))\<lparr>row := r, col := n\<rparr>))
         else g1 ! r ! c')"
    unfolding S by auto
  have "fold (column_step src) [0..<Suc n] (g, k) = (g', k + draws_before g (Suc n))"
    by (simp add: g1(1) g'(1) draws_before_Suc)
  moreover have "g' ! r ! c = (if c < Suc n then settled_cell src k g r c else g ! r ! c)"
    if rc: "r < GRID_SIZE" "c < GRID_SIZE" for r c
  proof (cases "c = n")
    case True
    with cells[OF rc] show ?thesis by (simp add: settled_cell_def Let_def)
  next
    case False
    with cells[OF rc] cells1[OF rc] show ?thesis by (auto simp: less_Suc_eq)
  qed
  ultimately show ?case using g'(2) by blast
qed

lemma positions_ok_iff:
  "positions_ok g \<longleftrightarrow> (\<forall>r<GRID_SIZE. \<forall>c<GRID_SIZE. \<forall>t. g ! r ! c = Some t \<longrightarrow> row t = r \<and> col t = c)"
  by (auto simp: positions_ok_def list_all_iff split: option.splits)

lemma matches_in_grid: "(r, c) \<in> set (findMatches g) \<Longrightarrow> r < GRID_SIZE \<and> c < GRID_SIZE"
  using findMatches_in_run[of "(r, c)" g] by (simp add: in_run_def)

lemma processCascade_cells:
  assumes wf: "wf_grid g" and ok: "positions_ok g" and ms: "findMatches g \<noteq> []"
  shows "\<exists>g'. processCascade src k g =
           (g', length (findMatches g), k + draws_before (clear_matches (findMatches g) g) GRID_SIZE) \<and>
     wf_grid g' \<and>
     (\<forall>r<GRID_SIZE. \<forall>c<GRID_SIZE.
        g' ! r ! c = settled_cell src k (clear_matches (findMatches g) g) r c)"
proof -
  define cl where "cl = clear_matches (findMatches g) g"
  have wfc: "wf_grid cl" unfolding cl_def by (rule wf_clear_matches[OF wf])
  have okc: "col_ok cl c" if "c < GRID_SIZE" for c
    using ok that unfolding col_ok_def cl_def positions_ok_iff
    by (auto simp: nth_clear_matches[OF wf] split: if_splits)
  from columns_loop[OF wfc okc, of GRID_SIZE src k] obtain g' where
    g': "fold (column_step src) [0..<GRID_SIZE] (cl, k) = (g', k + draws_before cl GRID_SIZE)"
      "wf_grid g'"
    and cells: "\<And>r c. r < GRID_SIZE \<Longrightarrow> c < GRID_SIZE \<Longrightarrow> g' ! r ! c = settled_cell src k cl r c"
    by auto
  have "processCascade src k g = (g', length (findMatches g), k + draws_before cl GRID_SIZE)"
    using ms g'(1) by (simp add: processCascade_def Let_def cl_def)
  with g'(2) cells show ?thesis unfolding cl_def by blast
qed

section \<open>Stored positions\<close>

lemma createInitialGrid_cells:
  "r < GRID_SIZE \<Longrightarrow> c < GRID_SIZE \<Longrightarrow>
   fst (createInitialGrid src k) ! r ! c = Some (new_token src (k + r * GRID_SIZE + c) r c False)"
  by (simp add: createInitialGrid_def)

lemma wf_createInitialGrid: "wf_grid (fst (createInitialGrid src k))"
  by (simp add: createInitialGrid_def wf_grid_def list_all_iff)

lemma positions_createInitialGrid: "positions_ok (fst (createInitialGrid src k))"
  unfolding positions_ok_iff by (simp add: createInitialGrid_cells new_token_def)

lemma wf_swap_cells: "wf_grid g \<Longrightarrow> wf_grid (swap_cells g sel r c)"
  by (simp add: swap_cells_def Let_def wf_set_cell split: option.splits)

lemma swap_cells_cells:
  assumes wf: "wf_grid g" and rc: "r < GRID_SIZE" "c < GRID_SIZE"
    and sel: "selRow sel < GRID_SIZE" "selCol sel < GRID_SIZE"
    and rc': "r' < GRID_SIZE" "c' < GRID_SIZE"
  shows "swap_cells g sel r c ! r' ! c' =
     (if r' = selRow sel \<and> c' = selCol sel
      then map_option (\<lambda>t. t\<lparr>row := selRow sel, col := selCol sel\<rparr>) (g ! r ! c)
      else if r' = r \<and> c' = c
      then map_option (\<lambda>t. t\<lparr>row := r, col := c\<rparr>) (g ! selRow sel ! selCol sel)
      else g ! r' ! c')"
proof -
  define g1 where "g1 = set_cell g r c (g ! selRow sel ! selCol sel)"
  define g2 where "g2 = set_cell g1 (selRow sel) (selCol sel) (g ! r ! c)"
  define g3 where "g3 = (case g2 ! r ! c of
                  Some t \<Rightarrow> set_cell g2 r c (Some (t\<lparr>row := r, col := c\<rparr>)) | None \<Rightarrow> g2)"
  define g4 where "g4 = (case g3 ! selRow sel ! selCol sel of
            Some t \<Rightarrow> set_cell g3 (selRow sel) (selCol sel)
                        (Some (t\<lparr>row := selRow sel, col := selCol sel\<rparr>))
          | None \<Rightarrow> g3)"
  have sw: "swap_cells g sel r c = g4"
    unfolding swap_cells_def Let_def g4_def g3_def g2_def g1_def by (rule refl)
  have wf1: "wf_grid g1" unfolding g1_def by (rule wf_set_cell[OF wf])
  have wf2: "wf_grid g2" unfolding g2_def by (rule wf_set_cell[OF wf1])
  have wf3: "wf_grid g3" unfolding g3_def using wf2 by (simp add: wf_set_cell split: option.splits)
  have c1: "g1 ! a ! b = (if a = r \<and> b = c then g ! selRow sel ! selCol sel else g ! a ! b)"
    if "a < GRID_SIZE" "b < GRID_SIZE" for a b
    unfolding g1_def by (rule nth_set_cell[OF wf that])
  have c2: "g2 ! a ! b = (if a = selRow sel \<and> b = selCol sel then g ! r ! c else g1 ! a ! b)"
    if "a < GRID_SIZE" "b < GRID_SIZE" for a b
    unfolding g2_def by (rule nth_set_cell[OF wf1 that])
  have c3: "g3 ! a ! b = (if a = r \<and> b = c then map_option (\<lambda>t. t\<lparr>row := r, col := c\<rparr>) (g2 ! r ! c) else g2 ! a ! b)"
    if "a < GRID_SIZE" "b < GRID_SIZE" for a b
    unfolding g3_def using nth_set_cell[OF wf2 that] by (auto split: option.splits)
  have c4: "g4 ! a ! b = (if a = selRow sel \<and> b = selCol sel
        then map_option (\<lambda>t. t\<lparr>row := selRow sel, col := selCol sel\<rparr>) (g3 ! selRow sel ! selCol sel)
        else g3 ! a ! b)"
    if "a < GRID_SIZE" "b < GRID_SIZE" for a b
    unfolding g4_def using nth_set_cell[OF wf3 that] by (auto split: option.splits)
  show ?thesis
    unfolding sw c4[OF rc'] c3[OF rc'] c3[OF sel] c2[OF rc] c2[OF rc'] c2[OF sel]
      c1[OF rc] c1[OF rc'] c1[OF sel]
    by (auto simp: option.map_comp comp_def split: option.splits)
qed

lemma positions_swap_cells:
  assumes "wf_grid g" and "positions_ok g" and "r < GRID_SIZE" and "c < GRID_SIZE"
    and "selRow sel < GRID_SIZE" and "selCol sel < GRID_SIZE"
  shows "positions_ok (swap_cells g sel r c)"
  unfolding positions_ok_iff
proof (intro allI impI)
  fix r' c' t
  assume rc': "r' < GRID_SIZE" "c' < GRID_SIZE" and t: "swap_cells g sel r c ! r' ! c' = Some t"
  from t assms(2) rc' show "row t = r' \<and> col t = c'"
    unfolding swap_cells_cells[OF assms(1,3-6) rc'] positions_ok_iff
    by (auto split: if_splits)
qed

lemma settled_cell_position:
  "settled_cell src k g r c = Some t \<Longrightarrow> row t = r \<and> col t = c"
  by (auto simp: settled_cell_def Let_def new_token_def split: if_splits)

lemma wf_processCascade:
  assumes "wf_grid g" and "positions_ok g"
  shows "wf_grid (fst (processCascade src k g))"
proof (cases "findMatches g = []")
  case True
  with assms show ?thesis by (simp add: processCascade_def)
next
  case False
  from processCascade_cells[OF assms False, of src k] show ?thesis by auto
qed

lemma positions_processCascade:
  assumes "wf_grid g" and "positions_ok g"
  shows "positions_ok (fst (processCascade src k g))"
proof (cases "findMatches g = []")
  case True
  with assms show ?thesis by (simp add: processCascade_def)
next
  case False
  from processCascade_cells[OF assms False, of src k] obtain g' where
    "fst (processCascade src k g) = g'"
    "\<And>r c. r < GRID_SIZE \<Longrightarrow> c < GRID_SIZE \<Longrightarrow>
        g' ! r ! c = settled_cell src k (clear_matches (findMatches g) g) r c"
    by auto
  then show ?thesis
    unfolding positions_ok_iff using settled_cell_position by auto
qed

lemma full_iff: "full g \<longleftrightarrow> (\<forall>r<GRID_SIZE. \<forall>c<GRID_SIZE. g ! r ! c \<noteq> None)"
  by (auto simp: full_def list_all_iff)

lemma full_createInitialGrid: "full (fst (createInitialGrid src k))"
  unfolding full_iff by (simp add: createInitialGrid_cells)

lemma full_swap_cells:
  assumes "wf_grid g" and "full g" and "r < GRID_SIZE" and "c < GRID_SIZE"
    and "selRow sel < GRID_SIZE" and "selCol sel < GRID_SIZE"
  shows "full (swap_cells g sel r c)"
  unfolding full_iff
proof (intro allI impI)
  fix r' c' assume rc': "r' < GRID_SIZE" "c' < GRID_SIZE"
  from assms(2) have "g ! r ! c \<noteq> None" "g ! selRow sel ! selCol sel \<noteq> None" "g ! r' ! c' \<noteq> None"
    using assms(3-6) rc' by (simp_all add: full_iff)
  then show "swap_cells g sel r c ! r' ! c' \<noteq> None"
    unfolding swap_cells_cells[OF assms(1,3-6) rc'] by auto
qed

lemma full_processCascade:
  assumes "wf_grid g" and "positions_ok g" and "full g"
  shows "full (fst (processCascade src k g))"
proof (cases "findMatches g = []")
  case True
  with assms show ?thesis by (simp add: processCascade_def)
next
  case False
  from processCascade_cells[OF assms(1,2) False, of src k] obtain g' where
    "fst (processCascade src k g) = g'"
    "\<And>r c. r < GRID_SIZE \<Longrightarrow> c < GRID_SIZE \<Longrightarrow>
        g' ! r ! c = settled_cell src k (clear_matches (findMatches g) g) r c"
    by auto
  then show ?thesis
    unfolding full_iff by (simp add: settled_cell_def Let_def)
qed

text \<open>
  C8. In every grid that the operations produce (the initial grid, the grid of a
  committed swap, the grid returned by a resolution step) every token stores the row
  and the column of the slot that holds it; such a grid also keeps the 8x8 shape and
  has every slot occupied.
\<close>

theorem produced_positions:
  assumes "produced g"
  shows "wf_grid g \<and> positions_ok g \<and> full g"
  using assms
proof (induction rule: produced.induct)
  case (initial src k)
  show ?case
    by (simp add: wf_createInitialGrid positions_createInitialGrid full_createInitialGrid)
next
  case (committed_swap g r c sel)
  then show ?case by (simp add: wf_swap_cells positions_swap_cells full_swap_cells)
next
  case (resolution_step g src k g' n k')
  from resolution_step.IH wf_processCascade[of g src k] positions_processCascade[of g src k]
    full_processCascade[of g src k] resolution_step.hyps(2)
  show ?case by simp
qed

theorem produced_positions_witness:
  "produced (fst (processCascade two_kinds 0 after_swap)) \<and>
   wf_grid (fst (processCascade two_kinds 0 after_swap)) \<and>
   positions_ok (fst (processCascade two_kinds 0 after_swap)) \<and>
   full (fst (processCascade two_kinds 0 after_swap))"
proof -
  let ?sel = "\<lparr>selRow = 4, selCol = 4\<rparr>"
  have "produced before_swap"
    unfolding before_swap_def board_def by (rule produced.initial)
  moreover have "(3::nat) < GRID_SIZE" "(4::nat) < GRID_SIZE" "selRow ?sel < GRID_SIZE"
    "selCol ?sel < GRID_SIZE" by (simp_all add: GRID_SIZE_def)
  moreover have "isAdjacent ?sel 3 4" by (simp add: isAdjacent_def)
  moreover have "findMatches (swap_cells before_swap ?sel 3 4) \<noteq> []"
    using findMatches_after_swap by (simp add: after_swap_def)
  ultimately have "produced after_swap"
    unfolding after_swap_def by (rule produced.committed_swap)
  moreover have "processCascade two_kinds 0 after_swap =
     (fst (processCascade two_kinds 0 after_swap), fst (snd (processCascade two_kinds 0 after_swap)),
      snd (snd (processCascade two_kinds 0 after_swap)))" by simp
  ultimately have p: "produced (fst (processCascade two_kinds 0 after_swap))"
    by (rule produced.resolution_step)
  from produced_positions[OF p] p show ?thesis by simp
qed

section \<open>Stable compaction\<close>

lemma survivors_col:
  assumes "col_ok g c" and "i < length (survivors g c 0)"
  shows "col (survivors g c 0 ! i) = c"
proof -
  from assms(2) have "survivors g c 0 ! i \<in> set (survivors g c 0)" by simp
  from survivors_from_column[OF _ this] obtain r where
    "r < GRID_SIZE" "g ! r ! c = Some (survivors g c 0 ! i)" by auto
  with assms(1) show ?thesis by (auto simp: col_ok_def)
qed

lemma col_ok_cleared:
  assumes "wf_grid g" and "positions_ok g" and "c < GRID_SIZE"
  shows "col_ok (clear_matches ms g) c"
  using assms(2,3) unfolding col_ok_def positions_ok_iff
  by (auto simp: nth_clear_matches[OF assms(1)] split: if_splits)

lemma length_placed: "length (placed r0 S) = length S"
  by (simp add: placed_def)

lemma nth_placed: "i < length S \<Longrightarrow> placed r0 S ! i = Some ((S ! i)\<lparr>row := r0 + i\<rparr>)"
  by (simp add: placed_def)

lemma column_settled:
  assumes ok: "col_ok g c" and c: "c < GRID_SIZE"
    and cells: "\<And>r. r < GRID_SIZE \<Longrightarrow> g' ! r ! c = settled_cell src k g r c"
  shows "column g' c =
     map (\<lambda>r. Some (new_token src
            (k + draws_before g c + (GRID_SIZE - length (survivors g c 0) - 1 - r)) r c True))
         [0..<GRID_SIZE - length (survivors g c 0)] @
     placed (GRID_SIZE - length (survivors g c 0)) (survivors g c 0)"
proof -
  define S where "S = survivors g c 0"
  define m where "m = length S"
  have m: "m \<le> GRID_SIZE" using length_survivors[of 0 g c] by (simp add: m_def S_def)
  have colS: "col (S ! i) = c" if "i < m" for i
    using survivors_col[OF ok, of i] that by (simp add: S_def m_def)
  show ?thesis
    unfolding S_def[symmetric] m_def[symmetric]
  proof (rule nth_equalityI)
    show "length (column g' c) =
      length (map (\<lambda>r. Some (new_token src (k + draws_before g c + (GRID_SIZE - m - 1 - r)) r c True))
         [0..<GRID_SIZE - m] @ placed (GRID_SIZE - m) S)"
      using m by (simp add: column_def length_placed m_def)
  next
    fix r assume "r < length (column g' c)"
    then have r: "r < GRID_SIZE" by (simp add: column_def)
    have lhs: "column g' c ! r = settled_cell src k g r c"
      using r by (simp add: column_def cells)
    show "column g' c ! r =
      (map (\<lambda>r. Some (new_token src (k + draws_before g c + (GRID_SIZE - m - 1 - r)) r c True))
         [0..<GRID_SIZE - m] @ placed (GRID_SIZE - m) S) ! r"
    proof (cases "r + m < GRID_SIZE")
      case True
      then have lt: "r < GRID_SIZE - m" by simp
      have "settled_cell src k g r c =
          Some (new_token src (k + draws_before g c + (GRID_SIZE - m - 1 - r)) r c True)"
        using True by (simp add: settled_cell_def Let_def S_def m_def)
      then show ?thesis unfolding lhs using lt by (simp add: nth_append)
    next
      case False
      define i where "i = r - (GRID_SIZE - m)"
      have i: "i < m" "\<not> r < GRID_SIZE - m" "r + m - GRID_SIZE = i" "GRID_SIZE - m + i = r"
        using False r m by (simp_all add: i_def)
      have "settled_cell src k g r c = Some ((S ! i)\<lparr>row := r, col := c\<rparr>)"
        using False i(3) by (simp add: settled_cell_def Let_def S_def m_def)
      also have "(S ! i)\<lparr>row := r, col := c\<rparr> = (S ! i)\<lparr>row := r\<rparr>"
        using colS[OF i(1)] by simp
      also have "Some ((S ! i)\<lparr>row := r\<rparr>) = placed (GRID_SIZE - m) S ! i"
        using i(1,4) by (simp add: nth_placed m_def)
      finally show ?thesis unfolding lhs using i(2) by (simp add: nth_append i_def)
    qed
  qed
qed

lemma column_fallen:
  assumes ok: "col_ok g c" and f: "fallen g c 0 (h, e)"
  shows "column h c = replicate (GRID_SIZE - length (survivors g c 0)) None @
           placed (GRID_SIZE - length (survivors g c 0)) (survivors g c 0)"
proof -
  define S where "S = survivors g c 0"
  define m where "m = length S"
  have m: "m \<le> GRID_SIZE" using length_survivors[of 0 g c] by (simp add: m_def S_def)
  from f have empty: "\<And>r. r + m < GRID_SIZE \<Longrightarrow> h ! r ! c = None"
    and below: "\<And>r. r < GRID_SIZE \<Longrightarrow> GRID_SIZE \<le> r + m \<Longrightarrow>
         h ! r ! c = Some ((S ! (r + m - GRID_SIZE))\<lparr>row := r, col := c\<rparr>)"
    by (simp_all add: fallen_def Let_def S_def m_def)
  have colS: "col (S ! i) = c" if "i < m" for i
    using survivors_col[OF ok, of i] that by (simp add: S_def m_def)
  show ?thesis
    unfolding S_def[symmetric] m_def[symmetric]
  proof (rule nth_equalityI)
    show "length (column h c) = length (replicate (GRID_SIZE - m) None @ placed (GRID_SIZE - m) S)"
      using m by (simp add: column_def length_placed m_def)
  next
    fix r assume "r < length (column h c)"
    then have r: "r < GRID_SIZE" by (simp add: column_def)
    have lhs: "column h c ! r = h ! r ! c" using r by (simp add: column_def)
    show "column h c ! r = (replicate (GRID_SIZE - m) None @ placed (GRID_SIZE - m) S) ! r"
    proof (cases "r + m < GRID_SIZE")
      case True
      then have lt: "r < GRID_SIZE - m" by simp
      show ?thesis unfolding lhs empty[OF True] using lt by (simp add: nth_append)
    next
      case False
      define i where "i = r - (GRID_SIZE - m)"
      have i: "i < m" "\<not> r < GRID_SIZE - m" "r + m - GRID_SIZE = i" "GRID_SIZE - m + i = r"
        using False r m by (simp_all add: i_def)
      from False have "GRID_SIZE \<le> r + m" by simp
      from below[OF r this] have "h ! r ! c = Some ((S ! i)\<lparr>row := r, col := c\<rparr>)"
        by (simp add: i(3))
      also have "(S ! i)\<lparr>row := r, col := c\<rparr> = (S ! i)\<lparr>row := r\<rparr>"
        using colS[OF i(1)] by simp
      also have "Some ((S ! i)\<lparr>row := r\<rparr>) = placed (GRID_SIZE - m) S ! i"
        using i(1,4) by (simp add: nth_placed m_def)
      finally show ?thesis unfolding lhs using i(2) by (simp add: nth_append i_def)
    qed
  qed
qed

lemma placed_not_None: "x \<in> set (placed r0 S) \<Longrightarrow> x \<noteq> None"
  by (auto simp: placed_def set_zip)

lemma survivors_full:
  assumes "\<And>r. r < GRID_SIZE \<Longrightarrow> g ! r ! c \<noteq> None"
  shows "survivors g c n = map (\<lambda>r. the (g ! r ! c)) [n..<GRID_SIZE]"
proof -
  have "filter (\<lambda>x. x \<noteq> None) (map (\<lambda>r. g ! r ! c) [n..<GRID_SIZE]) = map (\<lambda>r. g ! r ! c) [n..<GRID_SIZE]"
    using assms by (intro filter_True) auto
  then show ?thesis by (simp add: survivors_def tokens_of_def)
qed

lemma column_full:
  assumes full: "\<And>r. r < GRID_SIZE \<Longrightarrow> g ! r ! c \<noteq> None" and ok: "col_ok g c"
  shows "column g c = placed 0 (survivors g c 0)" and "length (survivors g c 0) = GRID_SIZE"
proof -
  have S: "survivors g c 0 = map (\<lambda>r. the (g ! r ! c)) [0..<GRID_SIZE]"
    by (rule survivors_full[OF full])
  show len: "length (survivors g c 0) = GRID_SIZE" by (simp add: S)
  show "column g c = placed 0 (survivors g c 0)"
  proof (rule nth_equalityI)
    show "length (column g c) = length (placed 0 (survivors g c 0))"
      by (simp add: column_def length_placed len)
  next
    fix r assume "r < length (column g c)"
    then have r: "r < GRID_SIZE" by (simp add: column_def)
    from full[OF r] obtain t where t: "g ! r ! c = Some t" by auto
    with ok r have "row t = r" by (auto simp: col_ok_def)
    then have "t\<lparr>row := r\<rparr> = t" by simp
    with r t show "column g c ! r = placed 0 (survivors g c 0) ! r"
      by (simp add: column_def nth_placed len) (simp add: S)
  qed
qed

lemma col_ok_positions: "positions_ok g \<Longrightarrow> c < GRID_SIZE \<Longrightarrow> col_ok g c"
  by (simp add: positions_ok_iff col_ok_def)

text \<open>
  C4. On an 8x8 grid whose tokens store their slots, and which is full or holds a match
  (the grids that reach a resolution step are full), a resolution step compacts each
  column on its own and stably. With \<open>S\<close> the tokens of column \<open>c\<close> that survive the
  clearing, from the top down, the column of the new grid is the fresh tokens followed
  by \<open>S\<close> in the same order, each survivor storing its new row; no empty slot lies
  below an occupied one; and between the gravity pass and the refill of the column it
  is empty slots followed by the same survivors.
\<close>

theorem compaction_stable:
  assumes "wf_grid g" and "positions_ok g" and "full g \<or> findMatches g \<noteq> []"
    and "c < GRID_SIZE" and "processCascade src k g = (g', n, k')"
  shows "let cleared = clear_matches (findMatches g) g;
             S = survivors cleared c 0;
             vacated = GRID_SIZE - length S
         in column g' c =
              map (\<lambda>r. Some (new_token src (k + draws_before cleared c + (vacated - 1 - r)) r c True))
                  [0..<vacated] @ placed vacated S \<and>
            (\<forall>r1 r2. r1 < r2 \<and> r2 < GRID_SIZE \<and> g' ! r1 ! c \<noteq> None \<longrightarrow> g' ! r2 ! c \<noteq> None) \<and>
            (\<forall>h kc. fold (column_step src) [0..<c] (cleared, k) = (h, kc) \<longrightarrow>
               column (fst (fold (gravity_step c) (rev [0..<GRID_SIZE]) (h, int GRID_SIZE - 1))) c =
                 replicate vacated None @ placed vacated S)"
proof -
  define cl where "cl = clear_matches (findMatches g) g"
  define S where "S = survivors cl c 0"
  have wfc: "wf_grid cl" unfolding cl_def by (rule wf_clear_matches[OF assms(1)])
  have okc: "col_ok cl c'" if "c' < GRID_SIZE" for c'
    unfolding cl_def by (rule col_ok_cleared[OF assms(1,2) that])
  have col_full: "column g' c =
     map (\<lambda>r. Some (new_token src (k + draws_before cl c + (GRID_SIZE - length S - 1 - r)) r c True))
         [0..<GRID_SIZE - length S] @ placed (GRID_SIZE - length S) S \<and>
     (\<forall>r<GRID_SIZE. g' ! r ! c \<noteq> None)"
  proof (cases "findMatches g = []")
    case True
    with assms(3,5) have fg: "full g" and g': "g' = g" and cl: "cl = g"
      by (simp_all add: processCascade_def cl_def clear_matches_def)
    have nn: "g ! r ! c \<noteq> None" if "r < GRID_SIZE" for r
      using fg that assms(4) by (simp add: full_iff)
    from column_full[OF nn col_ok_positions[OF assms(2,4)]] nn
    show ?thesis by (simp add: g' S_def cl)
  next
    case False
    from processCascade_cells[OF assms(1,2) False, of src k] assms(5)
    have cells: "\<And>r c. r < GRID_SIZE \<Longrightarrow> c < GRID_SIZE \<Longrightarrow> g' ! r ! c = settled_cell src k cl r c"
      by (auto simp: cl_def)
    have "column g' c =
       map (\<lambda>r. Some (new_token src (k + draws_before cl c + (GRID_SIZE - length S - 1 - r)) r c True))
         [0..<GRID_SIZE - length S] @ placed (GRID_SIZE - length S) S"
      unfolding S_def
      by (rule column_settled[OF okc[OF assms(4)] assms(4)]) (simp add: cells assms(4))
    moreover have "g' ! r ! c \<noteq> None" if "r < GRID_SIZE" for r
      using cells[OF that assms(4)] by (simp add: settled_cell_def Let_def)
    ultimately show ?thesis by simp
  qed
  have grav: "column (fst (fold (gravity_step c) (rev [0..<GRID_SIZE]) (h, int GRID_SIZE - 1))) c =
                 replicate (GRID_SIZE - length S) None @ placed (GRID_SIZE - length S) S"
    if h: "fold (column_step src) [0..<c] (cl, k) = (h, kc)" for h kc
  proof -
    from columns_loop[OF wfc okc, of c src k] assms(4) h
    have wfh: "wf_grid h"
      and same: "\<And>r. r < GRID_SIZE \<Longrightarrow> h ! r ! c = cl ! r ! c"
      by auto
    have Sh: "survivors h c 0 = S" unfolding S_def by (rule survivors_cong) (rule same)
    have okh: "col_ok h c" using okc[OF assms(4)] same by (simp add: col_ok_def)
    obtain h' e where he: "fold (gravity_step c) (rev [0..<GRID_SIZE]) (h, int GRID_SIZE - 1) = (h', e)"
      by (cases "fold (gravity_step c) (rev [0..<GRID_SIZE]) (h, int GRID_SIZE - 1)")
    from gravity_loop[OF wfh okh assms(4), of 0] he have "fallen h c 0 (h', e)" by simp
    from column_fallen[OF okh this] show ?thesis by (simp add: he Sh)
  qed
  show ?thesis
    unfolding Let_def cl_def[symmetric] S_def[symmetric]
    using col_full grav by auto
qed

lemma positions_after_swap: "positions_ok after_swap"
  by code_simp

lemma wf_after_swap: "wf_grid after_swap"
  by code_simp

theorem compaction_stable_witness:
  "wf_grid after_swap \<and> positions_ok after_swap \<and> findMatches after_swap \<noteq> [] \<and>
   (2::nat) < GRID_SIZE \<and>
   (let cleared = clear_matches (findMatches after_swap) after_swap;
        S = survivors cleared 2 0;
        vacated = GRID_SIZE - length S
    in column (fst (processCascade two_kinds 0 after_swap)) 2 =
         map (\<lambda>r. Some (new_token two_kinds (0 + draws_before cleared 2 + (vacated - 1 - r)) r 2 True))
             [0..<vacated] @ placed vacated S)"
proof -
  have m: "findMatches after_swap \<noteq> []" by (simp add: findMatches_after_swap)
  have c: "(2::nat) < GRID_SIZE" by (simp add: GRID_SIZE_def)
  have p: "processCascade two_kinds 0 after_swap =
     (fst (processCascade two_kinds 0 after_swap), fst (snd (processCascade two_kinds 0 after_swap)),
      snd (snd (processCascade two_kinds 0 after_swap)))" by simp
  from compaction_stable[OF wf_after_swap positions_after_swap disjI2[OF m] c p]
    wf_after_swap positions_after_swap m c
  show ?thesis by (simp add: Let_def)
qed

section \<open>The cascade loop\<close>

lemma matchCount_zero_iff: "fst (snd (processCascade src k g)) = 0 \<longleftrightarrow> findMatches g = []"
  by (simp add: processCascade_def Let_def split: prod.splits)

lemma step_count_0: "step_count src k g 0 = fst (snd (processCascade src k g))"
  by (simp add: step_count_def)

lemma step_count_Suc:
  "processCascade src k g = (g', n, k') \<Longrightarrow> step_count src k g (Suc i) = step_count src k' g' i"
  by (simp add: step_count_def)

lemma cascade_iter_Suc:
  "processCascade src k g = (g', n, k') \<Longrightarrow> cascade_iter src k g (Suc i) = cascade_iter src k' g' i"
  by simp

lemma processCascade_no_match: "findMatches g = [] \<Longrightarrow> processCascade src k g = (g, 0, k)"
  by (simp add: processCascade_def)

lemma cascadeLoop_counts:
  assumes "\<forall>i<n. 0 < step_count src k g i" and "step_count src k g n = 0"
  shows "cascadeLoop src k g combo acc =
     Some (fst (cascade_iter src k g n), combo + int n,
           acc + (\<Sum>i<n. int (step_count src k g i) * 10 * (combo + int i + 1)),
           snd (cascade_iter src k g n))"
  using assms
proof (induction n arbitrary: k g combo acc)
  case 0
  then have "findMatches g = []" by (simp add: step_count_0 matchCount_zero_iff)
  then show ?case
    by (subst cascadeLoop.simps) (simp add: processCascade_no_match)
next
  case (Suc n)
  obtain g' m k' where p: "processCascade src k g = (g', m, k')"
    by (cases "processCascade src k g") auto
  define F where "F i = int (step_count src k g i) * 10 * (combo + int i + 1)" for i
  from Suc.prems(1) have m: "0 < m" "step_count src k g 0 = m"
    using p by (auto simp: step_count_0)
  have 1: "\<forall>i<n. 0 < step_count src k' g' i"
    using Suc.prems(1) by (auto simp: step_count_Suc[OF p, symmetric])
  have 2: "step_count src k' g' n = 0"
    using Suc.prems(2) by (simp add: step_count_Suc[OF p])
  have it: "cascade_iter src k g (Suc n) = cascade_iter src k' g' n"
    by (rule cascade_iter_Suc[OF p])
  have F0: "F 0 = int m * 10 * (combo + 1)" by (simp add: F_def m(2))
  have FS: "int (step_count src k' g' i) * 10 * (combo + 1 + int i + 1) = F (Suc i)" for i
    by (simp add: F_def step_count_Suc[OF p] algebra_simps)
  have sum: "(\<Sum>i<Suc n. F i) = int m * 10 * (combo + 1) + (\<Sum>i<n. F (Suc i))"
    unfolding F0[symmetric] by (rule sum.lessThan_Suc_shift)
  have "cascadeLoop src k g combo acc =
        cascadeLoop src k' g' (combo + 1) (acc + int m * 10 * (combo + 1))"
    using m(1) by (subst cascadeLoop.simps) (simp add: p)
  also have "\<dots> = Some (fst (cascade_iter src k' g' n), combo + 1 + int n,
           acc + int m * 10 * (combo + 1) +
             (\<Sum>i<n. int (step_count src k' g' i) * 10 * (combo + 1 + int i + 1)),
           snd (cascade_iter src k' g' n))"
    by (rule Suc.IH[OF 1 2])
  also have "\<dots> = Some (fst (cascade_iter src k g (Suc n)), combo + int (Suc n),
           acc + (\<Sum>i<Suc n. F i), snd (cascade_iter src k g (Suc n)))"
    unfolding it sum FS by simp
  finally show ?case unfolding F_def .
qed

lemma cascadeLoop_stops:
  assumes "cascadeLoop src k g combo acc = Some res"
  shows "\<exists>n. step_count src k g n = 0 \<and> fst res = fst (cascade_iter src k g n)"
proof (rule cascadeLoop.raw_induct[where
      P = "\<lambda>src k g combo acc res. \<exists>n. step_count src k g n = 0 \<and> fst res = fst (cascade_iter src k g n)",
      OF _ assms])
  fix loop :: "source \<Rightarrow> nat \<Rightarrow> grid \<Rightarrow> int \<Rightarrow> int \<Rightarrow> (grid \<times> int \<times> int \<times> nat) option"
  fix src k g combo acc res
  assume IH: "\<And>src k g combo acc res. loop src k g combo acc = Some res \<Longrightarrow>
      \<exists>n. step_count src k g n = 0 \<and> fst res = fst (cascade_iter src k g n)"
    and eq: "(case processCascade src k g of
        (newGrid, matchCount, k') \<Rightarrow>
          if matchCount = 0 then Some (g, combo, acc, k')
          else loop src k' newGrid (combo + 1) (acc + int matchCount * 10 * (combo + 1))) = Some res"
  obtain g' m k' where p: "processCascade src k g = (g', m, k')"
    by (cases "processCascade src k g") auto
  show "\<exists>n. step_count src k g n = 0 \<and> fst res = fst (cascade_iter src k g n)"
  proof (cases "m = 0")
    case True
    with eq p have "res = (g, combo, acc, k')" by simp
    moreover from True p have "step_count src k g 0 = 0" by (simp add: step_count_0)
    ultimately show ?thesis by (intro exI[of _ 0]) simp
  next
    case False
    with eq p have "loop src k' g' (combo + 1) (acc + int m * 10 * (combo + 1)) = Some res"
      by simp
    from IH[OF this] obtain n where
      "step_count src k' g' n = 0" "fst res = fst (cascade_iter src k' g' n)" by blast
    then show ?thesis
      by (intro exI[of _ "Suc n"]) (simp add: step_count_Suc[OF p] p)
  qed
qed

lemma step_count_example:
  "step_count two_kinds 0 after_swap 0 = 3"
  "step_count two_kinds 0 after_swap 1 = 4"
  "step_count two_kinds 0 after_swap 2 = 0"
  by code_simp+




section \<open>Termination of the cascade loop\<close>

lemma uniform_iff:
  "uniform K g \<longleftrightarrow> wf_grid g \<and> positions_ok g \<and>
     (\<forall>r<GRID_SIZE. \<forall>c<GRID_SIZE. holds_kind K (g ! r ! c))"
  by (auto simp: uniform_def list_all_iff)

lemma uniform_has_match:
  assumes "uniform K g"
  shows "findMatches g \<noteq> []"
proof -
  from assms have "h_window g 0 0"
    using GRID_SIZE_pos unfolding h_window_def same_kind3_iff uniform_iff
    by (intro exI[of _ K]) auto
  then have "(0, 0) \<in> h_cells g"
    using GRID_SIZE_pos by (auto simp: h_cells_def)
  then have "(0, 0) \<in> set (findMatches g)" by (simp add: set_findMatches)
  then show ?thesis by auto
qed

lemma settled_cell_kind:
  assumes src: "\<And>i. fst (src i) = K"
    and g: "\<And>r. r < GRID_SIZE \<Longrightarrow> g ! r ! c = None \<or> holds_kind K (g ! r ! c)"
    and r: "r < GRID_SIZE"
  shows "holds_kind K (settled_cell src k g r c)"
proof (cases "r + length (survivors g c 0) < GRID_SIZE")
  case True
  then show ?thesis by (simp add: settled_cell_def holds_kind_def new_token_def src)
next
  case False
  define t where "t = survivors g c 0 ! (r + length (survivors g c 0) - GRID_SIZE)"
  have "r + length (survivors g c 0) - GRID_SIZE < length (survivors g c 0)"
    using False r by simp
  then have "t \<in> set (survivors g c 0)"
    unfolding t_def by (rule nth_mem)
  from survivors_from_column[OF _ this] obtain r' where
    "r' < GRID_SIZE" "g ! r' ! c = Some t" by auto
  with g[of r'] have "tokenType t = K" by (simp add: holds_kind_def)
  with False show ?thesis by (simp add: settled_cell_def holds_kind_def t_def)
qed

lemma uniform_step:
  assumes u: "uniform K g" and src: "\<And>i. fst (src i) = K"
    and p: "processCascade src k g = (g', n, k')"
  shows "0 < n \<and> uniform K g'"
proof -
  from u have wf: "wf_grid g" and ok: "positions_ok g"
    and kinds: "\<And>r c. r < GRID_SIZE \<Longrightarrow> c < GRID_SIZE \<Longrightarrow> holds_kind K (g ! r ! c)"
    by (simp_all add: uniform_iff)
  have ms: "findMatches g \<noteq> []" by (rule uniform_has_match[OF u])
  from processCascade_cells[OF wf ok ms, of src k] p
  have n: "n = length (findMatches g)" and wf': "wf_grid g'"
    and cells: "\<And>r c. r < GRID_SIZE \<Longrightarrow> c < GRID_SIZE \<Longrightarrow>
        g' ! r ! c = settled_cell src k (clear_matches (findMatches g) g) r c"
    by auto
  have ok': "positions_ok g'" using positions_processCascade[OF wf ok, of src k] p by simp
  have "holds_kind K (g' ! r ! c)" if rc: "r < GRID_SIZE" "c < GRID_SIZE" for r c
    unfolding cells[OF rc]
  proof (rule settled_cell_kind[OF src _ rc(1)])
    fix r' assume "r' < GRID_SIZE"
    then show "clear_matches (findMatches g) g ! r' ! c = None \<or>
               holds_kind K (clear_matches (findMatches g) g ! r' ! c)"
      using kinds[of r' c] rc by (simp add: nth_clear_matches[OF wf])
  qed
  with wf' ok' n ms show ?thesis by (simp add: uniform_iff)
qed

lemma uniform_never_stops:
  assumes "cascadeLoop src k g combo acc = Some res"
  shows "\<not> (uniform K g \<and> (\<forall>i. fst (src i) = K))"
proof (rule cascadeLoop.raw_induct[where
      P = "\<lambda>src k g combo acc res. \<not> (uniform K g \<and> (\<forall>i. fst (src i) = K))", OF _ assms])
  fix loop :: "source \<Rightarrow> nat \<Rightarrow> grid \<Rightarrow> int \<Rightarrow> int \<Rightarrow> (grid \<times> int \<times> int \<times> nat) option"
  fix src k g combo acc res
  assume IH: "\<And>src k g combo acc res. loop src k g combo acc = Some res \<Longrightarrow>
      \<not> (uniform K g \<and> (\<forall>i. fst (src i) = K))"
    and eq: "(case processCascade src k g of
        (newGrid, matchCount, k') \<Rightarrow>
          if matchCount = 0 then Some (g, combo, acc, k')
          else loop src k' newGrid (combo + 1) (acc + int matchCount * 10 * (combo + 1))) = Some res"
  show "\<not> (uniform K g \<and> (\<forall>i. fst (src i) = K))"
  proof
    assume a: "uniform K g \<and> (\<forall>i. fst (src i) = K)"
    obtain g' m k' where p: "processCascade src k g = (g', m, k')"
      by (cases "processCascade src k g") auto
    from uniform_step[OF _ _ p, of K] a have m: "0 < m" and u': "uniform K g'" by auto
    from eq p m have "loop src k' g' (combo + 1) (acc + int m * 10 * (combo + 1)) = Some res"
      by simp
    from IH[OF this] u' a show False by simp
  qed
qed

lemma uniform_eth_grid: "uniform ETH eth_grid"
  unfolding uniform_iff eth_grid_def
  by (simp add: wf_createInitialGrid positions_createInitialGrid createInitialGrid_cells
      holds_kind_def new_token_def only_eth_def)

lemma uniform_swap_cells:
  assumes "uniform K g" and "r < GRID_SIZE" and "c < GRID_SIZE"
    and "selRow sel < GRID_SIZE" and "selCol sel < GRID_SIZE"
  shows "uniform K (swap_cells g sel r c)"
proof -
  from assms(1) have wf: "wf_grid g" and ok: "positions_ok g"
    and kinds: "\<And>r c. r < GRID_SIZE \<Longrightarrow> c < GRID_SIZE \<Longrightarrow> holds_kind K (g ! r ! c)"
    by (simp_all add: uniform_iff)
  have "holds_kind K (swap_cells g sel r c ! r' ! c')" if rc': "r' < GRID_SIZE" "c' < GRID_SIZE" for r' c'
    unfolding swap_cells_cells[OF wf assms(2-5) rc']
    using kinds[OF assms(2,3)] kinds[OF assms(4,5)] kinds[OF rc']
    by (auto simp: holds_kind_def split: option.splits)
  then show ?thesis
    unfolding uniform_iff
    using wf_swap_cells[OF wf] positions_swap_cells[OF wf ok assms(2-5)] by simp
qed

lemma uniform_eth_swapped: "uniform ETH eth_swapped"
  unfolding eth_swapped_def
  by (rule uniform_swap_cells[OF uniform_eth_grid]) (simp_all add: GRID_SIZE_def)

text \<open>
  C9, as stated, fails. After a start in which every draw is \<open>ETH\<close>, the swap of two
  neighbours leaves a grid of \<open>ETH\<close> only; with a refill that goes on drawing \<open>ETH\<close>
  every step clears the whole grid and fills it with \<open>ETH\<close> again, and the loop never
  returns.
\<close>

theorem cascade_can_run_forever:
  "cascadeLoop only_eth 64 eth_swapped 0 0 = None"
proof (cases "cascadeLoop only_eth 64 eth_swapped 0 0")
  case None
  then show ?thesis .
next
  case (Some res)
  from uniform_never_stops[OF this, of ETH] uniform_eth_swapped
  show ?thesis by (simp add: only_eth_def)
qed

text \<open>
  C9, amended. The cascade loop returns exactly when the repeated resolution steps
  reach a step that clears zero cells, and the grid it returns holds no match.
\<close>

theorem cascade_returns_iff:
  "((\<exists>res. cascadeLoop src k g combo acc = Some res) \<longleftrightarrow> (\<exists>n. step_count src k g n = 0)) \<and>
   (\<forall>res. cascadeLoop src k g combo acc = Some res \<longrightarrow> findMatches (fst res) = [])"
proof (intro conjI iffI allI impI)
  assume "\<exists>res. cascadeLoop src k g combo acc = Some res"
  then show "\<exists>n. step_count src k g n = 0" using cascadeLoop_stops by blast
next
  assume "\<exists>n. step_count src k g n = 0"
  then obtain n where n: "step_count src k g n = 0" "\<forall>i<n. step_count src k g i \<noteq> 0"
    using exists_least_iff[of "\<lambda>n. step_count src k g n = 0"] by auto
  from n(2) have "\<forall>i<n. 0 < step_count src k g i" by simp
  from cascadeLoop_counts[OF this n(1)] show "\<exists>res. cascadeLoop src k g combo acc = Some res"
    by blast
next
  fix res assume "cascadeLoop src k g combo acc = Some res"
  from cascadeLoop_stops[OF this] obtain n where
    n: "step_count src k g n = 0" "fst res = fst (cascade_iter src k g n)" by blast
  obtain gn kn where it: "cascade_iter src k g n = (gn, kn)" by (cases "cascade_iter src k g n")
  from n(1) it have "findMatches gn = []"
    by (simp add: step_count_def matchCount_zero_iff)
  with n(2) it show "findMatches (fst res) = []" by simp
qed

theorem cascade_returns_iff_witness:
  "step_count two_kinds 0 after_swap 2 = 0 \<and>
   (\<exists>res. cascadeLoop two_kinds 0 after_swap 0 0 = Some res \<and> findMatches (fst res) = [])"
  using cascade_returns_iff[of two_kinds 0 after_swap 0 0] step_count_example(3) by blast

section \<open>Empty slots and matches\<close>

lemma holds_kind_Some: "holds_kind k x \<Longrightarrow> x \<noteq> None"
  by (auto simp: holds_kind_def split: option.splits)

text \<open>
  C10. On every 8x8 grid, empty slots included, each coordinate that \<open>findMatches\<close>
  returns holds a token and lies in a window of three consecutive non-empty cells of
  one kind in its row or column; no run of a row or of a column contains an empty
  slot, so two tokens of one kind with an empty slot between them form no run.
\<close>

theorem matches_hold_tokens:
  assumes "wf_grid g" and "(r, c) \<in> set (findMatches g)"
  shows "r < GRID_SIZE \<and> c < GRID_SIZE \<and> g ! r ! c \<noteq> None \<and>
     ((\<exists>c0 k. c0 \<le> c \<and> c \<le> c0 + 2 \<and> c0 + 2 < GRID_SIZE \<and> holds_kind k (g ! r ! c0) \<and>
          holds_kind k (g ! r ! (c0 + 1)) \<and> holds_kind k (g ! r ! (c0 + 2))) \<or>
      (\<exists>r0 k. r0 \<le> r \<and> r \<le> r0 + 2 \<and> r0 + 2 < GRID_SIZE \<and> holds_kind k (g ! r0 ! c) \<and>
          holds_kind k (g ! (r0 + 1) ! c) \<and> holds_kind k (g ! (r0 + 2) ! c))) \<and>
     (\<forall>a b r' c'. a \<le> c' \<and> c' \<le> b \<and> g ! r' ! c' = None \<longrightarrow> \<not> is_run (row_cells g r' a b)) \<and>
     (\<forall>a b r' c'. a \<le> r' \<and> r' \<le> b \<and> g ! r' ! c' = None \<longrightarrow> \<not> is_run (col_cells g c' a b))"
proof -
  have range: "r < GRID_SIZE \<and> c < GRID_SIZE" by (rule matches_in_grid[OF assms(2)])
  from assms(2) consider (h) "(r, c) \<in> h_cells g" | (v) "(r, c) \<in> v_cells g"
    by (auto simp: set_findMatches)
  then have win:
     "(\<exists>c0 k. c0 \<le> c \<and> c \<le> c0 + 2 \<and> c0 + 2 < GRID_SIZE \<and> holds_kind k (g ! r ! c0) \<and>
          holds_kind k (g ! r ! (c0 + 1)) \<and> holds_kind k (g ! r ! (c0 + 2))) \<or>
      (\<exists>r0 k. r0 \<le> r \<and> r \<le> r0 + 2 \<and> r0 + 2 < GRID_SIZE \<and> holds_kind k (g ! r0 ! c) \<and>
          holds_kind k (g ! (r0 + 1) ! c) \<and> holds_kind k (g ! (r0 + 2) ! c))"
  proof cases
    case h
    then obtain c0 where "c0 < GRID_SIZE - 2" "c0 \<le> c" "c \<le> c0 + 2" "h_window g r c0"
      by (auto simp: h_cells_def)
    then show ?thesis unfolding h_window_def same_kind3_iff
      by (intro disjI1 exI[of _ c0]) auto
  next
    case v
    then obtain r0 where "r0 < GRID_SIZE - 2" "r0 \<le> r" "r \<le> r0 + 2" "v_window g r0 c"
      by (auto simp: v_cells_def)
    then show ?thesis unfolding v_window_def same_kind3_iff
      by (intro disjI2 exI[of _ r0]) auto
  qed
  have some: "g ! r ! c \<noteq> None"
    using win
  proof (elim disjE exE conjE)
    fix c0 k assume a: "c0 \<le> c" "c \<le> c0 + 2" and k: "holds_kind k (g ! r ! c0)"
      "holds_kind k (g ! r ! (c0 + 1))" "holds_kind k (g ! r ! (c0 + 2))"
    from between3[OF a] k show ?thesis by (auto dest: holds_kind_Some)
  next
    fix r0 k assume a: "r0 \<le> r" "r \<le> r0 + 2" and k: "holds_kind k (g ! r0 ! c)"
      "holds_kind k (g ! (r0 + 1) ! c)" "holds_kind k (g ! (r0 + 2) ! c)"
    from between3[OF a] k show ?thesis by (auto dest: holds_kind_Some)
  qed
  have rows: "\<forall>a b r' c'. a \<le> c' \<and> c' \<le> b \<and> g ! r' ! c' = None \<longrightarrow> \<not> is_run (row_cells g r' a b)"
    unfolding is_run_row_iff by (auto dest: holds_kind_Some)
  have cols: "\<forall>a b r' c'. a \<le> r' \<and> r' \<le> b \<and> g ! r' ! c' = None \<longrightarrow> \<not> is_run (col_cells g c' a b)"
    unfolding is_run_col_iff by (auto dest: holds_kind_Some)
  from range some win rows cols show ?thesis by blast
qed

lemma wf_holed_grid: "wf_grid holed_grid"
  by code_simp

lemma findMatches_holed_grid: "findMatches holed_grid = [(3, 2), (3, 3), (3, 4)]"
  by code_simp

lemma holed_grid_empty: "holed_grid ! 0 ! 0 = None"
  by code_simp

lemma findMatches_gapped_grid: "findMatches gapped_grid = []"
  by code_simp

theorem matches_hold_tokens_witness:
  "wf_grid holed_grid \<and> holed_grid ! 0 ! 0 = None \<and> (3, 2) \<in> set (findMatches holed_grid) \<and>
   holed_grid ! 3 ! 2 \<noteq> None \<and> (0, 0) \<notin> set (findMatches holed_grid) \<and>
   findMatches gapped_grid = []"
proof -
  have m: "(3, 2) \<in> set (findMatches holed_grid)" by (simp add: findMatches_holed_grid)
  have n: "(0, 0) \<notin> set (findMatches holed_grid)" by (simp add: findMatches_holed_grid)
  from matches_hold_tokens[OF wf_holed_grid m] wf_holed_grid holed_grid_empty m n
    findMatches_gapped_grid
  show ?thesis by blast
qed

end
